theory Spec2Isabelle
  imports Complex_Main "HOL-Library.Multiset" "HOL-Library.AList"
begin

section \<open>Lexical tokenizer (\<^verbatim>\<open>core/bm25_index.py\<close>, \<^verbatim>\<open>_tokenize_text\<close>)\<close>

text \<open>
  Python strings are sequences of code points. The model works on texts whose code points
  lie in U+0000..U+00FF, so that one \<^typ>\<open>char\<close> is one code point; the sigil U+00A7
  is \<open>CHR 0xA7\<close>. The character classes below are those of Python 3 on that range:
  \<^verbatim>\<open>\d\<close>, \<^verbatim>\<open>\w\<close> and \<^verbatim>\<open>\s\<close> of \<^verbatim>\<open>re\<close> on \<^verbatim>\<open>str\<close> patterns,
  \<^verbatim>\<open>str.isdigit\<close> and \<^verbatim>\<open>str.lower\<close>.
\<close>

definition sigil :: char where
  "sigil = CHR 0xA7"

definition code_point :: "char \<Rightarrow> nat" where
  "code_point c = of_char c"

definition is_decimal :: "char \<Rightarrow> bool" where
  \<comment> \<open>\<^verbatim>\<open>\d\<close>: the decimal digits\<close>
  "is_decimal c = (let n = code_point c in 48 \<le> n \<and> n \<le> 57)"

definition is_digit_char :: "char \<Rightarrow> bool" where
  \<comment> \<open>\<^verbatim>\<open>str.isdigit\<close> on one character: decimals and the superscripts 1, 2, 3\<close>
  "is_digit_char c = (let n = code_point c in (48 \<le> n \<and> n \<le> 57) \<or> n = 178 \<or> n = 179 \<or> n = 185)"

definition is_word :: "char \<Rightarrow> bool" where
  \<comment> \<open>\<^verbatim>\<open>\w\<close>: alphanumeric characters and the underscore\<close>
  "is_word c = (let n = code_point c in
     (48 \<le> n \<and> n \<le> 57) \<or> (65 \<le> n \<and> n \<le> 90) \<or> n = 95 \<or> (97 \<le> n \<and> n \<le> 122) \<or>
     n = 170 \<or> n = 178 \<or> n = 179 \<or> n = 181 \<or> n = 185 \<or> n = 186 \<or>
     (188 \<le> n \<and> n \<le> 190) \<or> (192 \<le> n \<and> n \<le> 214) \<or> (216 \<le> n \<and> n \<le> 246) \<or>
     (248 \<le> n \<and> n \<le> 255))"

definition is_space :: "char \<Rightarrow> bool" where
  \<comment> \<open>\<^verbatim>\<open>\s\<close>: Unicode whitespace\<close>
  "is_space c = (let n = code_point c in
     (9 \<le> n \<and> n \<le> 13) \<or> (28 \<le> n \<and> n \<le> 32) \<or> n = 133 \<or> n = 160)"

definition lower_char :: "char \<Rightarrow> char" where
  "lower_char c = (let n = code_point c in
     if (65 \<le> n \<and> n \<le> 90) \<or> (192 \<le> n \<and> n \<le> 214) \<or> (216 \<le> n \<and> n \<le> 222)
     then char_of (n + 32) else c)"

definition lower :: "string \<Rightarrow> string" where
  \<comment> \<open>\<^verbatim>\<open>text.lower()\<close>\<close>
  "lower s = map lower_char s"

definition isdigit :: "string \<Rightarrow> bool" where
  \<comment> \<open>\<^verbatim>\<open>s.isdigit()\<close>: non-empty and every character a digit\<close>
  "isdigit s = (s \<noteq> [] \<and> list_all is_digit_char s)"

text \<open>
  \<^verbatim>\<open>re.sub(r'SIGIL\s+(\d+)', r'SIGIL\1', text)\<close>: scan from the left; at a sigil followed
  by at least one whitespace character and then at least one decimal, drop the whitespace and
  resume after the decimals; otherwise copy one character. Both repetitions are greedy, and
  since no character is both whitespace and decimal, backtracking finds nothing more.
\<close>

function sub_sigil :: "string \<Rightarrow> string" where
  "sub_sigil [] = []"
| "sub_sigil (c # cs) =
     (if c = sigil \<and> takeWhile is_space cs \<noteq> [] \<and>
         takeWhile is_decimal (dropWhile is_space cs) \<noteq> []
      then sigil # takeWhile is_decimal (dropWhile is_space cs) @
           sub_sigil (dropWhile is_decimal (dropWhile is_space cs))
      else c # sub_sigil cs)"
  by pat_completeness auto
termination
proof (relation "measure length")
  show "wf (measure length)" by simp
next
  fix c :: char and cs :: string
  have "length (dropWhile is_decimal (dropWhile is_space cs)) \<le> length cs"
    by (meson length_dropWhile_le order_trans)
  then show "(dropWhile is_decimal (dropWhile is_space cs), c # cs) \<in> measure length"
    by simp
next
  fix c :: char and cs :: string
  show "(cs, c # cs) \<in> measure length" by simp
qed

text \<open>
  \<^verbatim>\<open>re.findall(r'SIGIL\d+|[\w]+', text)\<close>: scan from the left; the first alternative is
  tried first, then the second; a position where neither matches is skipped.
\<close>

function findall :: "string \<Rightarrow> string list" where
  "findall [] = []"
| "findall (c # cs) =
     (if c = sigil \<and> takeWhile is_decimal cs \<noteq> []
      then (c # takeWhile is_decimal cs) # findall (dropWhile is_decimal cs)
      else if is_word c
      then (c # takeWhile is_word cs) # findall (dropWhile is_word cs)
      else findall cs)"
  by pat_completeness auto
termination
proof (relation "measure length")
  show "wf (measure length)" by simp
qed (simp_all add: length_dropWhile_le less_Suc_eq_le)

text \<open>The body of the loop over the raw tokens: what one raw token appends.\<close>

definition emit :: "string \<Rightarrow> string list" where
  "emit token =
     token #
     (case token of
        [] \<Rightarrow> []
      | c # number \<Rightarrow>
          if c = sigil then (if isdigit number then [number] else [])
          else if isdigit token \<and> length token > 1
          then map (\<lambda>digit. [digit])
                 (filter (\<lambda>digit. digit \<noteq> CHR ''0'' \<or> length token = 1) token)
          else [])"

definition tokenize_text :: "string \<Rightarrow> string list" where
  "tokenize_text text = concat (map emit (findall (sub_sigil (lower text))))"

section \<open>Exceptions\<close>

text \<open>
  Every \<^verbatim>\<open>raise\<close> of the modelled code is a value of this type; a function that can
  raise returns \<open>exn + 'a\<close>, with \<open>Inl\<close> the exception. All of them are subclasses of
  Python's \<^verbatim>\<open>Exception\<close>.
\<close>

datatype exn =
    CollectionNotFoundError
  | EmptyCollectionError
  | RetrievalError
  | RuntimeError
  | ValueError
  | ZeroDivisionError
  | IndexError
  | OtherException

type_synonym metadata = "(string \<times> string) list"

section \<open>Lexical index (\<^verbatim>\<open>core/bm25_index.py\<close>, \<^verbatim>\<open>BM25IndexManager\<close>)\<close>

text \<open>A \<^verbatim>\<open>TextNode\<close>; the field \<open>id'\<close> is the source's \<^verbatim>\<open>id_\<close>.\<close>

record text_node =
  id' :: string
  "text" :: string
  metadata :: metadata

text \<open>
  The manager's fields. The scoring structure \<^verbatim>\<open>BM25Okapi(corpus_tokens)\<close> is kept as
  the tokenized corpus it was built from; \<open>None\<close> is Python's \<^verbatim>\<open>None\<close>.
\<close>

record bm25_manager =
  bm25_index :: "string list list option"
  nodes :: "text_node list"
  node_id_map :: "string \<rightharpoonup> nat"

definition init_manager :: bm25_manager where
  \<comment> \<open>\<^verbatim>\<open>__init__\<close>\<close>
  "init_manager = \<lparr>bm25_index = None, nodes = [], node_id_map = Map.empty\<rparr>"

text \<open>
  What \<^verbatim>\<open>pickle.load\<close> gives for the index file when it succeeds: a dictionary in which
  each of the three keys is present (\<open>Some\<close>) or absent (\<open>None\<close>).
\<close>

record pickled =
  p_bm25_index :: "string list list option option"
  p_nodes :: "text_node list option"
  p_node_id_map :: "(string \<rightharpoonup> nat) option"

text \<open>The index file of the collection: absent, present but not loadable, or a pickled dictionary.\<close>

datatype index_file = NoFile | Unreadable | Stored pickled

definition load :: "index_file \<Rightarrow> bm25_manager \<Rightarrow> bm25_manager" where
  \<comment> \<open>the three fields are assigned one after the other inside the \<^verbatim>\<open>try\<close>; the first
      failure is logged and ends the load, leaving the fields assigned so far\<close>
  "load f m =
     (case f of
        Stored data \<Rightarrow>
          (case p_bm25_index data of
             None \<Rightarrow> m
           | Some index \<Rightarrow>
               (case p_nodes data of
                  None \<Rightarrow> m\<lparr>bm25_index := index\<rparr>
                | Some ns \<Rightarrow>
                    (case p_node_id_map data of
                       None \<Rightarrow> m\<lparr>bm25_index := index, nodes := ns\<rparr>
                     | Some idmap \<Rightarrow>
                         m\<lparr>bm25_index := index, nodes := ns, node_id_map := idmap\<rparr>)))
      | _ \<Rightarrow> m)"

text \<open>
  How the write of \<^verbatim>\<open>save\<close> ends: it succeeds, or \<^verbatim>\<open>open\<close> raises and the file is as
  it was, or \<^verbatim>\<open>pickle.dump\<close> raises into the file opened for writing, which is then not
  loadable. Both failures are logged and swallowed.
\<close>

datatype write_outcome = Written | OpenFails | DumpFails

definition pickle :: "bm25_manager \<Rightarrow> pickled" where
  "pickle m =
     \<lparr>p_bm25_index = Some (bm25_index m), p_nodes = Some (nodes m),
      p_node_id_map = Some (node_id_map m)\<rparr>"

definition save :: "write_outcome \<Rightarrow> bm25_manager \<Rightarrow> index_file \<Rightarrow> index_file" where
  "save w m f = (case w of Written \<Rightarrow> Stored (pickle m) | OpenFails \<Rightarrow> f | DumpFails \<Rightarrow> Unreadable)"

text \<open>
  The constructor of the library \<^verbatim>\<open>rank_bm25\<close>: it divides by the number of documents
  and then by the number of distinct tokens of the corpus, so it raises
  \<^verbatim>\<open>ZeroDivisionError\<close> on a corpus without any token.
\<close>

definition BM25Okapi :: "string list list \<Rightarrow> exn + string list list" where
  "BM25Okapi corpus_tokens =
     (if concat corpus_tokens = [] then Inl ZeroDivisionError else Inr corpus_tokens)"

text \<open>
  The body of the loop \<^verbatim>\<open>for node in new_nodes\<close>. \<^verbatim>\<open>self.nodes[idx] = node\<close> raises
  \<^verbatim>\<open>IndexError\<close> when \<open>idx\<close> is out of range.
\<close>

definition upsert :: "text_node \<Rightarrow> text_node list \<times> (string \<rightharpoonup> nat) \<Rightarrow>
    exn + text_node list \<times> (string \<rightharpoonup> nat)" where
  "upsert node st =
     (case st of (ns, idmap) \<Rightarrow>
        (case idmap (id' node) of
           None \<Rightarrow> Inr (ns @ [node], idmap(id' node \<mapsto> length (ns @ [node]) - 1))
         | Some idx \<Rightarrow>
             if idx < length ns then Inr (ns[idx := node], idmap) else Inl IndexError))"

text \<open>The loop: it ends at the first exception, with the nodes and the map as they are then.\<close>

fun upsert_all :: "text_node list \<Rightarrow> text_node list \<times> (string \<rightharpoonup> nat) \<Rightarrow>
    (text_node list \<times> (string \<rightharpoonup> nat)) \<times> exn option" where
  "upsert_all [] st = (st, None)"
| "upsert_all (node # rest) st =
     (case upsert node st of Inl e \<Rightarrow> (st, Some e) | Inr st' \<Rightarrow> upsert_all rest st')"

definition load_if_needed :: "index_file \<Rightarrow> bm25_manager \<Rightarrow> bm25_manager" where
  \<comment> \<open>\<^verbatim>\<open>if self.bm25_index is None and self.index_path.exists(): self.load()\<close>\<close>
  "load_if_needed f m = (if bm25_index m = None \<and> f \<noteq> NoFile then load f m else m)"

text \<open>
  \<^verbatim>\<open>add_nodes\<close> returns nothing; the model returns the manager and the file after the
  call, and the exception that left the call, if any. Nothing in it is caught: an exception
  of the loop or of \<^verbatim>\<open>BM25Okapi\<close> leaves the fields assigned so far and skips the save.
\<close>

definition add_nodes :: "index_file \<Rightarrow> write_outcome \<Rightarrow> bm25_manager \<Rightarrow> text_node list \<Rightarrow>
    bm25_manager \<times> index_file \<times> exn option" where
  "add_nodes f w m new_nodes =
     (if new_nodes = [] then (m, f, None)
      else
        let m1 = load_if_needed f m in
        case upsert_all new_nodes (nodes m1, node_id_map m1) of
          ((ns, idmap), raised) \<Rightarrow>
            let m2 = m1\<lparr>nodes := ns, node_id_map := idmap\<rparr> in
            (case raised of
               Some e \<Rightarrow> (m2, f, Some e)
             | None \<Rightarrow>
                 (case BM25Okapi (map (\<lambda>node. tokenize_text (text node)) (nodes m2)) of
                    Inl e \<Rightarrow> (m2, f, Some e)
                  | Inr index \<Rightarrow>
                      let m3 = m2\<lparr>bm25_index := Some index\<rparr>
                      in (m3, save w m3 f, None))))"

text \<open>
  The invariant of the data model: the identifier map is a bijection between the identifiers
  of the corpus and their positions.
\<close>

definition consistent :: "text_node list \<Rightarrow> (string \<rightharpoonup> nat) \<Rightarrow> bool" where
  "consistent ns idmap =
     ((\<forall>i idx. idmap i = Some idx \<longrightarrow> idx < length ns \<and> id' (ns ! idx) = i) \<and>
      (\<forall>idx < length ns. idmap (id' (ns ! idx)) = Some idx))"

definition index_wf :: "bm25_manager \<Rightarrow> bool" where
  "index_wf m = consistent (nodes m) (node_id_map m)"

text \<open>The same invariant for the index file: what it stores, if it can be loaded, is well formed.\<close>

definition file_wf :: "index_file \<Rightarrow> bool" where
  "file_wf f =
     (case f of
        Stored data \<Rightarrow>
          (case (p_bm25_index data, p_nodes data, p_node_id_map data) of
             (Some index, Some ns, Some idmap) \<Rightarrow> consistent ns idmap
           | _ \<Rightarrow> False)
      | _ \<Rightarrow> True)"

section \<open>Fusion retriever (\<^verbatim>\<open>core/retrievers/enhanced_hybrid_retriever.py\<close>)\<close>

text \<open>
  Scores are Python floats; they are modelled as exact rationals, so that sums and
  comparisons are those of the numbers the floats stand for.
\<close>

record contribution =
  original_score :: rat
  rank :: nat
  contribution :: rat

text \<open>
  The metadata dictionary of a node: the entries it came with, and the two keys the fusion
  writes as fields of their own (\<open>None\<close>: the key is absent).
\<close>

record node_meta =
  entries :: metadata
  rrf_score :: "rat option"
  retriever_contributions :: "(nat \<times> contribution) list option"

text \<open>
  The node of a \<^verbatim>\<open>NodeWithScore\<close>: \<open>node_id\<close> is \<^verbatim>\<open>getattr(node, 'node_id', None)\<close>
  and \<open>node_text\<close> is \<^verbatim>\<open>getattr(node, 'text', str(node))\<close>.
\<close>

record base_node =
  node_id :: "string option"
  node_text :: string
  node_metadata :: node_meta

record node_with_score =
  node :: base_node
  score :: rat

text \<open>
  A sub-retriever is the outcome of its call on the query at hand: it raises, or returns its
  ranked list. Every sub-retriever is a \<^verbatim>\<open>BaseRetriever\<close>, which has both
  \<^verbatim>\<open>retrieve\<close> and \<^verbatim>\<open>aretrieve\<close>, so the \<^verbatim>\<open>hasattr\<close> tests take
  their first branch. The field \<open>rrf_k\<close> is the source's \<^verbatim>\<open>self.k\<close>.
\<close>

record hybrid_retriever =
  retrievers :: "(exn + node_with_score list) list"
  weights :: "rat list"
  rrf_k :: int
  top_k :: int

definition init_retriever :: "(exn + node_with_score list) list \<Rightarrow> rat list option \<Rightarrow> int \<Rightarrow> int \<Rightarrow>
    exn + hybrid_retriever" where
  \<comment> \<open>\<^verbatim>\<open>__init__\<close>: \<^verbatim>\<open>weights or [1.0] * len(retrievers)\<close>, then the length check\<close>
  "init_retriever rs ws K topk =
     (let ws' = (case ws of None \<Rightarrow> replicate (length rs) 1
                 | Some w \<Rightarrow> if w = [] then replicate (length rs) 1 else w)
      in if length ws' \<noteq> length rs then Inl ValueError
         else Inr \<lparr>retrievers = rs, weights = ws', rrf_k = K, top_k = topk\<rparr>)"

definition slice_to :: "int \<Rightarrow> 'a list \<Rightarrow> 'a list" where
  \<comment> \<open>Python's \<^verbatim>\<open>xs[:n]\<close>; a negative \<open>n\<close> counts from the end\<close>
  "slice_to n xs = (if 0 \<le> n then take (nat n) xs else take (nat (int (length xs) + n)) xs)"

definition node_key :: "(string \<Rightarrow> string) \<Rightarrow> base_node \<Rightarrow> string" where
  \<comment> \<open>the node identifier, or the MD5 hex digest of the content when there is none\<close>
  "node_key md5 n = (case node_id n of Some i \<Rightarrow> i | None \<Rightarrow> md5 (node_text n))"

text \<open>
  One value of the dictionary \<^verbatim>\<open>fused_scores\<close>. The dictionary itself is an association
  list in insertion order, which is the order Python iterates it in.
\<close>

record fused_entry =
  entry_node :: base_node
  entry_score :: rat
  entry_contributions :: "(nat \<times> contribution) list"

type_synonym fused_scores = "(string \<times> fused_entry) list"

text \<open>The body of the inner loop, for the item at zero-based rank \<open>r\<close> of retriever \<open>idx\<close>.\<close>

definition fuse_hit :: "(string \<Rightarrow> string) \<Rightarrow> int \<Rightarrow> nat \<Rightarrow> rat \<Rightarrow> nat \<Rightarrow> node_with_score \<Rightarrow>
    fused_scores \<Rightarrow> exn + fused_scores" where
  "fuse_hit md5 K idx weight r nws fused =
     (let key = node_key md5 (node nws);
          fused1 = (if key \<notin> fst ` set fused
                    then fused @ [(key, \<lparr>entry_node = node nws, entry_score = 0,
                                         entry_contributions = []\<rparr>)]
                    else fused)
      in if int r + K = 0 then Inl ZeroDivisionError
         else
           let rank_score = weight * (1 / of_int (int r + K))
           in Inr (AList.map_entry key
                    (\<lambda>e. e\<lparr>entry_score := entry_score e + rank_score,
                            entry_contributions :=
                              AList.update idx
                                \<lparr>original_score = score nws, rank = r + 1, contribution = rank_score\<rparr>
                                (entry_contributions e)\<rparr>)
                    fused1))"

fun fuse_ranked :: "(string \<Rightarrow> string) \<Rightarrow> int \<Rightarrow> nat \<Rightarrow> rat \<Rightarrow> nat \<Rightarrow> node_with_score list \<Rightarrow>
    fused_scores \<Rightarrow> exn + fused_scores" where
  "fuse_ranked md5 K idx weight r [] fused = Inr fused"
| "fuse_ranked md5 K idx weight r (nws # rest) fused =
     (case fuse_hit md5 K idx weight r nws fused of
        Inl e \<Rightarrow> Inl e
      | Inr fused' \<Rightarrow> fuse_ranked md5 K idx weight (Suc r) rest fused')"

fun fuse_retrievers :: "(string \<Rightarrow> string) \<Rightarrow> int \<Rightarrow> nat \<Rightarrow> (node_with_score list \<times> rat) list \<Rightarrow>
    fused_scores \<Rightarrow> exn + fused_scores" where
  "fuse_retrievers md5 K idx [] fused = Inr fused"
| "fuse_retrievers md5 K idx ((results, weight) # rest) fused =
     (case fuse_ranked md5 K idx weight 0 results fused of
        Inl e \<Rightarrow> Inl e
      | Inr fused' \<Rightarrow> fuse_retrievers md5 K (Suc idx) rest fused')"

definition sorted_by_score :: "fused_entry list \<Rightarrow> fused_entry list" where
  \<comment> \<open>\<^verbatim>\<open>sorted(..., key=score, reverse=True)\<close>: descending and stable\<close>
  "sorted_by_score items = sort_key (\<lambda>item. - entry_score item) items"

definition to_node_with_score :: "fused_entry \<Rightarrow> node_with_score" where
  "to_node_with_score item =
     \<lparr>node = (entry_node item)
         \<lparr>node_metadata := (node_metadata (entry_node item))
            \<lparr>rrf_score := Some (entry_score item),
             retriever_contributions := Some (entry_contributions item)\<rparr>\<rparr>,
      score = entry_score item\<rparr>"

definition fuse_results :: "(string \<Rightarrow> string) \<Rightarrow> hybrid_retriever \<Rightarrow> node_with_score list list \<Rightarrow>
    exn + node_with_score list" where
  "fuse_results md5 self results_per_retriever =
     (if results_per_retriever = [] then Inr []
      else
        case fuse_retrievers md5 (rrf_k self) 0 (zip results_per_retriever (weights self)) [] of
          Inl e \<Rightarrow> Inl e
        | Inr fused \<Rightarrow> Inr (map to_node_with_score (sorted_by_score (map snd fused))))"

definition aretrieve :: "(string \<Rightarrow> string) \<Rightarrow> hybrid_retriever \<Rightarrow> exn + node_with_score list" where
  \<comment> \<open>\<^verbatim>\<open>_aretrieve\<close>: gather with \<^verbatim>\<open>return_exceptions=True\<close>, results in task order\<close>
  "aretrieve md5 self =
     (if retrievers self = [] then Inr []
      else
        let processed_results =
              map (\<lambda>result. case result of Inl e \<Rightarrow> [] | Inr res \<Rightarrow> res) (retrievers self)
        in case fuse_results md5 self processed_results of
             Inl e \<Rightarrow> Inl e
           | Inr fused_results \<Rightarrow> Inr (slice_to (top_k self) fused_results))"



section \<open>Retriever factory (\<^verbatim>\<open>core/retrievers/retriever_factory.py\<close>)\<close>

text \<open>
  What the vector store, the embedding model and the lexical index do for one collection and
  the query at hand. The flags say whether a call succeeds; the two retrievers are the
  outcomes of the vector and the BM25 retriever; \<open>vector_query\<close> is the outcome of the direct
  \<^verbatim>\<open>collection.query\<close>, as rows of document, metadata and distance.
\<close>

record collection_env =
  get_collection_ok :: bool
  index_ok :: bool
  bm25_ok :: bool
  vector_retriever :: "exn + node_with_score list"
  bm25_retriever :: "exn + node_with_score list"
  doc_count :: nat
  embed_ok :: bool
  vector_query :: "exn + (string \<times> metadata \<times> rat) list"

definition get_retriever_for_collection :: "collection_env \<Rightarrow> exn + hybrid_retriever" where
  \<comment> \<open>called with \<^verbatim>\<open>use_bm25=True\<close> and no weights; \<^verbatim>\<open>k\<close> and \<^verbatim>\<open>top_k\<close> are the defaults\<close>
  "get_retriever_for_collection c =
     (if \<not> get_collection_ok c then Inl CollectionNotFoundError
      else if \<not> index_ok c then Inl RetrievalError
      else
        case (if bm25_ok c
              then init_retriever [vector_retriever c, bm25_retriever c] (Some [7 / 10, 3 / 10]) 60 10
              else init_retriever [vector_retriever c] (Some [1]) 60 10) of
          Inl e \<Rightarrow> Inl RetrievalError
        | Inr retriever \<Rightarrow> Inr retriever)"

section \<open>Query engine (\<^verbatim>\<open>core/query_engine.py\<close>)\<close>

record query_config =
  n_results :: int
  min_relevance :: rat
  merge_strategy :: string
  filters :: "metadata option"

definition default_config :: query_config where
  "default_config = \<lparr>n_results = 5, min_relevance = 0, merge_strategy = ''interleave'', filters = Some []\<rparr>"

text \<open>The field \<open>result_metadata\<close> is the source's \<^verbatim>\<open>metadata\<close>.\<close>

record query_result =
  content :: string
  result_metadata :: node_meta
  relevance_score :: rat
  collection_name :: string
  source_type :: string
  base_relevance :: rat
  keyword_boost :: rat

type_synonym cache_key = "string \<times> string \<times> int \<times> metadata option"

text \<open>
  The world outside the engine. The query cache (\<^verbatim>\<open>core/services/query_cache\<close>) is a
  state of type \<open>'c\<close> with its two operations; the MD5 digest is a function; the engine's
  two attributes are flags that say whether they are set.
\<close>

record 'c environment =
  chroma_client :: bool
  embeddings :: bool
  md5_hexdigest :: "string \<Rightarrow> string"
  cache_get :: "'c \<Rightarrow> cache_key \<Rightarrow> query_result list option"
  cache_set :: "'c \<Rightarrow> cache_key \<Rightarrow> query_result list \<Rightarrow> 'c"
  list_collections :: "exn + string list"
  collection :: "string \<Rightarrow> collection_env"

definition reraise :: "exn \<Rightarrow> exn" where
  \<comment> \<open>the \<^verbatim>\<open>except\<close> clauses of \<^verbatim>\<open>_query_single_collection\<close>\<close>
  "reraise e = (if e = EmptyCollectionError then e else if e = RetrievalError then e else RetrievalError)"

definition query_single_collection :: "'c environment \<Rightarrow> 'c \<Rightarrow> string \<Rightarrow> string \<Rightarrow> int \<Rightarrow> rat \<Rightarrow>
    metadata option \<Rightarrow> exn + query_result list \<times> 'c" where
  "query_single_collection env cache query_text name k min_rel fltrs =
     (case cache_get env cache (name, query_text, k, fltrs) of
        Some cached_result \<Rightarrow> Inr (filter (\<lambda>res. relevance_score res \<ge> min_rel) cached_result, cache)
      | None \<Rightarrow>
          let c = collection env name in
          if \<not> get_collection_ok c then Inl (reraise OtherException)
          else if doc_count c = 0 then Inl (reraise EmptyCollectionError)
          else if \<not> embed_ok c then Inl (reraise OtherException)
          else
            case vector_query c of
              Inl e \<Rightarrow> Inl (reraise e)
            | Inr rows \<Rightarrow>
                let query_results =
                      map (\<lambda>(document, md, distance).
                             \<lparr>content = document,
                              result_metadata = \<lparr>entries = md, rrf_score = None,
                                                 retriever_contributions = None\<rparr>,
                              relevance_score = 1 - distance,
                              collection_name = name,
                              source_type = ''vector'',
                              base_relevance = 1 - distance,
                              keyword_boost = 0\<rparr>) rows
                in Inr (filter (\<lambda>res. relevance_score res \<ge> min_rel) query_results,
                        cache_set env cache (name, query_text, k, fltrs) query_results))"

definition to_query_result :: "string \<Rightarrow> node_with_score \<Rightarrow> query_result" where
  "to_query_result name result =
     (let md = node_metadata (node result);
          st = (case retriever_contributions md of
                  Some contribs \<Rightarrow> if 1 \<in> fst ` set contribs then ''hybrid'' else ''vector''
                | None \<Rightarrow> ''hybrid'')
      in \<lparr>content = node_text (node result),
          result_metadata = md,
          relevance_score = score result,
          collection_name = name,
          source_type = st,
          base_relevance = score result,
          keyword_boost = 0\<rparr>)"

definition query_single_collection_interface :: "'c environment \<Rightarrow> 'c \<Rightarrow> string \<Rightarrow> string \<Rightarrow> int \<Rightarrow>
    rat \<Rightarrow> metadata option \<Rightarrow> exn + query_result list \<times> 'c" where
  "query_single_collection_interface env cache query_text name k min_rel fltrs =
     (case cache_get env cache (name, query_text, k, fltrs) of
        Some cached_result \<Rightarrow> Inr (filter (\<lambda>res. relevance_score res \<ge> min_rel) cached_result, cache)
      | None \<Rightarrow>
          (case (case get_retriever_for_collection (collection env name) of
                   Inl e \<Rightarrow> Inl e
                 | Inr retriever \<Rightarrow> aretrieve (md5_hexdigest env) retriever) of
             Inr raw_results \<Rightarrow>
               let query_results = map (to_query_result name) raw_results
               in Inr (filter (\<lambda>res. relevance_score res \<ge> min_rel) query_results,
                       cache_set env cache (name, query_text, k, fltrs) query_results)
           | Inl e \<Rightarrow>
               if e = CollectionNotFoundError then Inr ([], cache)
               else if e = EmptyCollectionError then Inr ([], cache)
               else query_single_collection env cache query_text name k min_rel fltrs))"

text \<open>
  \<^verbatim>\<open>asyncio.gather(*tasks, return_exceptions=True)\<close>: one outcome per target collection,
  in the order of the targets. The tasks are run one after the other on the cache.
\<close>

fun gather :: "'c environment \<Rightarrow> 'c \<Rightarrow> string \<Rightarrow> int \<Rightarrow> rat \<Rightarrow> metadata option \<Rightarrow> string list \<Rightarrow>
    (exn + query_result list) list \<times> 'c" where
  "gather env cache query_text k min_rel fltrs [] = ([], cache)"
| "gather env cache query_text k min_rel fltrs (name # rest) =
     (case query_single_collection_interface env cache query_text name k min_rel fltrs of
        Inl e \<Rightarrow>
          (case gather env cache query_text k min_rel fltrs rest of
             (outcomes, cache') \<Rightarrow> (Inl e # outcomes, cache'))
      | Inr (results, cache1) \<Rightarrow>
          (case gather env cache1 query_text k min_rel fltrs rest of
             (outcomes, cache') \<Rightarrow> (Inr results # outcomes, cache')))"

fun extend_all :: "(exn + query_result list) list \<Rightarrow> query_result list \<Rightarrow> query_result list" where
  \<comment> \<open>the loop that skips the exceptions and extends \<^verbatim>\<open>all_results\<close>\<close>
  "extend_all [] all_results = all_results"
| "extend_all (Inl e # rest) all_results = extend_all rest all_results"
| "extend_all (Inr result # rest) all_results = extend_all rest (all_results @ result)"

fun group_by_collection :: "query_result list \<Rightarrow> (string \<times> query_result list) list \<Rightarrow>
    (string \<times> query_result list) list" where
  "group_by_collection [] results_by_collection = results_by_collection"
| "group_by_collection (result # rest) results_by_collection =
     (let d = (if collection_name result \<notin> fst ` set results_by_collection
               then results_by_collection @ [(collection_name result, [])]
               else results_by_collection)
      in group_by_collection rest (AList.map_entry (collection_name result) (\<lambda>v. v @ [result]) d))"

fun interleave_inner :: "nat \<Rightarrow> int \<Rightarrow> (string \<times> 'a list) list \<Rightarrow> 'a list \<Rightarrow> 'a list" where
  "interleave_inner i k [] merged = merged"
| "interleave_inner i k ((name, v) # rest) merged =
     (let merged' = (if i < length v then merged @ [v ! i] else merged)
      in if int (length merged') \<ge> k then merged' else interleave_inner i k rest merged')"

fun interleave_outer :: "nat list \<Rightarrow> int \<Rightarrow> (string \<times> 'a list) list \<Rightarrow> 'a list \<Rightarrow> 'a list" where
  "interleave_outer [] k d merged = merged"
| "interleave_outer (i # rest) k d merged =
     (let merged' = interleave_inner i k d merged
      in if int (length merged') \<ge> k then merged' else interleave_outer rest k d merged')"

definition merge_results :: "query_result list \<Rightarrow> int \<Rightarrow> string \<Rightarrow> query_result list" where
  "merge_results all_results k strategy =
     (if all_results = [] then []
      else if strategy = ''best''
      then slice_to k (sort_key (\<lambda>x. - relevance_score x) all_results)
      else
        let results_by_collection = group_by_collection all_results [];
            max_len = fold max (map (\<lambda>(name, v). length v) results_by_collection) 0
        in interleave_outer [0..<max_len] k results_by_collection [])"

definition target_collections :: "'c environment \<Rightarrow> string list option \<Rightarrow> exn + string list" where
  \<comment> \<open>the given collections, or all collections of the store when none is given\<close>
  "target_collections env collection_names =
     (case collection_names of
        Some (name # names) \<Rightarrow> Inr (name # names)
      | _ \<Rightarrow> list_collections env)"

definition query :: "'c environment \<Rightarrow> 'c \<Rightarrow> string \<Rightarrow> string list option \<Rightarrow> query_config option \<Rightarrow>
    exn + query_result list \<times> 'c" where
  "query env cache query_text collection_names config =
     (let config = (case config of None \<Rightarrow> default_config | Some cfg \<Rightarrow> cfg) in
      if \<not> chroma_client env \<or> \<not> embeddings env then Inl RuntimeError
      else
        case target_collections env collection_names of
          Inl e \<Rightarrow> Inl e
        | Inr targets \<Rightarrow>
            if targets = [] then Inr ([], cache)
            else
              case gather env cache query_text (n_results config) (min_relevance config)
                     (filters config) targets of
                (results_from_all_collections, cache') \<Rightarrow>
                  Inr (merge_results (extend_all results_from_all_collections [])
                         (n_results config) (merge_strategy config), cache'))"

section \<open>Reference definitions, in the words of the specification\<close>

text \<open>
  These definitions are not translations of code: they say what the specification says, and
  the theorems below compare the code with them.
\<close>

fun first_seen :: "'a list \<Rightarrow> 'a list" where
  \<comment> \<open>the distinct elements of a list, in the order of their first occurrence\<close>
  "first_seen [] = []"
| "first_seen (x # xs) = x # removeAll x (first_seen xs)"

definition turn :: "nat \<Rightarrow> 'a list list \<Rightarrow> 'a list" where
  \<comment> \<open>the round number \<open>i\<close> of a round-robin: the \<open>i\<close>-th result of every list that has one\<close>
  "turn i groups = map (\<lambda>v. v ! i) (filter (\<lambda>v. i < length v) groups)"

definition round_robin :: "'a list list \<Rightarrow> 'a list" where
  \<comment> \<open>one result per list, round after round, until every list is exhausted\<close>
  "round_robin groups = concat (map (\<lambda>i. turn i groups) [0..<fold max (map length groups) 0])"

definition by_collection :: "query_result list \<Rightarrow> query_result list list" where
  \<comment> \<open>the results of each collection, the collections in first-seen order\<close>
  "by_collection all_results =
     map (\<lambda>c. filter (\<lambda>r. collection_name r = c) all_results)
       (first_seen (map collection_name all_results))"


section \<open>Auxiliary definitions for the proofs\<close>



section \<open>Sample data\<close>

definition sample_result :: "string \<Rightarrow> string \<Rightarrow> rat \<Rightarrow> query_result" where
  "sample_result c name s =
     \<lparr>content = c, result_metadata = \<lparr>entries = [], rrf_score = None, retriever_contributions = None\<rparr>,
      relevance_score = s, collection_name = name, source_type = ''vector'',
      base_relevance = s, keyword_boost = 0\<rparr>"

definition sample_node :: "string \<Rightarrow> string \<Rightarrow> text_node" where
  "sample_node i t = \<lparr>id' = i, text = t, metadata = []\<rparr>"

definition sample_index :: bm25_manager where
  "sample_index =
     \<lparr>bm25_index = Some [[''old''], [''x'']],
      nodes = [sample_node ''a'' ''old'', sample_node ''b'' ''x''],
      node_id_map = [''a'' \<mapsto> 0, ''b'' \<mapsto> 1]\<rparr>"

definition sample_hit :: "string option \<Rightarrow> string \<Rightarrow> rat \<Rightarrow> node_with_score" where
  "sample_hit i t s =
     \<lparr>node = \<lparr>node_id = i, node_text = t,
              node_metadata = \<lparr>entries = [], rrf_score = None, retriever_contributions = None\<rparr>\<rparr>,
      score = s\<rparr>"




definition sample_collection :: "node_with_score list \<Rightarrow> node_with_score list \<Rightarrow> collection_env" where
  "sample_collection vec bm =
     \<lparr>get_collection_ok = True, index_ok = True, bm25_ok = True,
      vector_retriever = Inr vec, bm25_retriever = Inr bm,
      doc_count = 3, embed_ok = True, vector_query = Inr []\<rparr>"

definition missing_collection :: collection_env where
  "missing_collection =
     \<lparr>get_collection_ok = False, index_ok = False, bm25_ok = False,
      vector_retriever = Inl OtherException, bm25_retriever = Inl OtherException,
      doc_count = 0, embed_ok = True, vector_query = Inl OtherException\<rparr>"

definition fallback_collection :: "(string \<times> metadata \<times> rat) list \<Rightarrow> collection_env" where
  "fallback_collection rows =
     \<lparr>get_collection_ok = True, index_ok = False, bm25_ok = False,
      vector_retriever = Inl OtherException, bm25_retriever = Inl OtherException,
      doc_count = 1, embed_ok = True, vector_query = Inr rows\<rparr>"

definition sample_collections :: "string \<Rightarrow> collection_env" where
  "sample_collections name =
     (if name = ''A''
      then sample_collection [sample_hit (Some ''a1'') ''a1'' 1, sample_hit (Some ''a2'') ''a2'' 1] []
      else if name = ''B''
      then sample_collection [] [sample_hit (Some ''b1'') ''b1'' 1]
      else if name = ''F''
      then fallback_collection [(''doc'', [], 3 / 2)]
      else missing_collection)"

definition sample_env :: "(cache_key \<rightharpoonup> query_result list) environment" where
  "sample_env =
     \<lparr>chroma_client = True, embeddings = True, md5_hexdigest = (\<lambda>s. s),
      cache_get = (\<lambda>cache key. cache key),
      cache_set = (\<lambda>cache key results. cache(key \<mapsto> results)),
      list_collections = Inr [''A'', ''B'', ''F''],
      collection = sample_collections\<rparr>"

definition sample_config :: "int \<Rightarrow> rat \<Rightarrow> query_config" where
  "sample_config k m = \<lparr>n_results = k, min_relevance = m, merge_strategy = ''interleave'', filters = None\<rparr>"

section \<open>Theorems about the tokenizer\<close>

lemma code_point_sigil: "code_point sigil = 167"
  by (simp add: sigil_def code_point_def)

lemma sigil_classes: "\<not> is_decimal sigil" "\<not> is_space sigil" "\<not> is_word sigil" "lower_char sigil = sigil"
  by (simp_all add: is_decimal_def is_space_def is_word_def lower_char_def code_point_sigil)

lemma decimal_classes:
  assumes "is_decimal c"
  shows "c \<noteq> sigil" "\<not> is_space c" "is_word c" "is_digit_char c" "lower_char c = c"
  using assms sigil_classes(1)
  by (auto simp add: is_decimal_def is_space_def is_word_def is_digit_char_def lower_char_def Let_def)

lemma space_classes:
  assumes "is_space c"
  shows "c \<noteq> sigil" "\<not> is_decimal c" "lower_char c = c"
  using assms sigil_classes(2)
  by (auto simp add: is_decimal_def is_space_def lower_char_def Let_def)

lemma lower_char_decimal_iff: "is_decimal (lower_char c) \<longleftrightarrow> is_decimal c"
proof (cases "(65 \<le> code_point c \<and> code_point c \<le> 90) \<or> (192 \<le> code_point c \<and> code_point c \<le> 214) \<or> (216 \<le> code_point c \<and> code_point c \<le> 222)")
  case True
  then have "code_point (char_of (code_point c + 32)) = code_point c + 32"
    by (auto simp add: code_point_def)
  with True show ?thesis
    by (auto simp add: lower_char_def is_decimal_def Let_def)
next
  case False
  then show ?thesis by (auto simp add: lower_char_def Let_def)
qed

lemma takeWhile_stop: "\<not> P r \<Longrightarrow> takeWhile P (xs @ r # rs) = takeWhile P xs"
  by (induction xs) auto

lemma dropWhile_stop: "\<not> P r \<Longrightarrow> dropWhile P (xs @ r # rs) = dropWhile P xs @ r # rs"
  by (induction xs) auto

lemma takeWhile_all: "\<forall>x\<in>set xs. P x \<Longrightarrow> takeWhile P (xs @ ys) = xs @ takeWhile P ys"
  by (induction xs) auto

lemma dropWhile_all: "\<forall>x\<in>set xs. P x \<Longrightarrow> dropWhile P (xs @ ys) = dropWhile P ys"
  by (induction xs) auto

lemma lower_decimals: "\<forall>c\<in>set ds. is_decimal c \<Longrightarrow> lower ds = ds"
  by (induction ds) (auto simp add: lower_def decimal_classes)

lemma lower_spaces: "\<forall>c\<in>set ws. is_space c \<Longrightarrow> lower ws = ws"
  by (induction ws) (auto simp add: lower_def space_classes)

lemma takeWhile_decimal_lower: "takeWhile is_decimal (lower xs) = takeWhile is_decimal xs"
  by (induction xs) (auto simp add: lower_def lower_char_decimal_iff decimal_classes)

lemma dropWhile_decimal_lower: "dropWhile is_decimal (lower xs) = lower (dropWhile is_decimal xs)"
  by (induction xs) (auto simp add: lower_def lower_char_decimal_iff decimal_classes)

lemma sub_sigil_append:
  "\<not> is_space r \<Longrightarrow> \<not> is_decimal r \<Longrightarrow> sub_sigil (xs @ r # rs) = sub_sigil xs @ sub_sigil (r # rs)"
proof (induction xs rule: sub_sigil.induct)
  case 1
  then show ?case by simp
next
  case (2 c cs)
  show ?case
  proof (cases "c = sigil \<and> takeWhile is_space cs \<noteq> [] \<and> takeWhile is_decimal (dropWhile is_space cs) \<noteq> []")
    case True
    with 2 show ?thesis
      by (simp add: takeWhile_stop dropWhile_stop del: sub_sigil.simps(2) ) (simp add: takeWhile_stop dropWhile_stop)
  next
    case False
    with 2 show ?thesis 
      by (auto simp add: takeWhile_stop dropWhile_stop)
  qed
qed

lemma sub_sigil_decimals:
  "\<forall>c\<in>set ds. is_decimal c \<Longrightarrow> sub_sigil (ds @ ys) = ds @ sub_sigil ys"
  by (induction ds) (auto simp add: decimal_classes)

lemma sub_sigil_Cons_hd: "\<exists>ys. sub_sigil (x # xs) = x # ys"
  by simp

lemma takeWhile_decimal_sub_sigil:
  "takeWhile is_decimal xs = [] \<Longrightarrow> takeWhile is_decimal (sub_sigil xs) = []"
proof (cases xs)
  case Nil
  then show ?thesis by simp
next
  case (Cons x xs')
  assume "takeWhile is_decimal xs = []"
  with Cons have "\<not> is_decimal x" by (auto split: if_splits)
  moreover obtain ys where "sub_sigil (x # xs') = x # ys" using sub_sigil_Cons_hd by blast
  ultimately show ?thesis using Cons by simp
qed

lemma sub_sigil_pattern:
  assumes ws: "\<forall>c\<in>set ws. is_space c"
    and ds: "ds \<noteq> []" "\<forall>c\<in>set ds. is_decimal c"
  shows "sub_sigil (sigil # ws @ ds @ post) =
         sigil # (ds @ takeWhile is_decimal post) @ sub_sigil (dropWhile is_decimal post)"
proof -
  obtain d ds' where d: "ds = d # ds'" using ds(1) by (cases ds) auto
  have dd: "is_decimal d" and nsp: "\<not> is_space d" using ds(2) d by (auto simp add: decimal_classes)
  have tw: "takeWhile is_space (ws @ ds @ post) = ws"
    using ws d nsp by (simp add: takeWhile_all)
  have dw: "dropWhile is_space (ws @ ds @ post) = ds @ post"
    using ws d nsp by (simp add: dropWhile_all)
  have td: "takeWhile is_decimal (ds @ post) = ds @ takeWhile is_decimal post"
    using ds(2) by (simp add: takeWhile_all)
  have dd2: "dropWhile is_decimal (ds @ post) = dropWhile is_decimal post"
    using ds(2) by (simp add: dropWhile_all)
  have rest: "sub_sigil (ds @ post) = (ds @ takeWhile is_decimal post) @ sub_sigil (dropWhile is_decimal post)"
  proof -
    have "ds @ post = (ds @ takeWhile is_decimal post) @ dropWhile is_decimal post" by simp
    moreover have "\<forall>c\<in>set (ds @ takeWhile is_decimal post). is_decimal c"
      using ds(2) by (auto dest: set_takeWhileD)
    ultimately show ?thesis using sub_sigil_decimals by metis
  qed
  show ?thesis
  proof (cases "ws = []")
    case True
    then have "takeWhile is_space (ws @ ds @ post) = []" using tw by simp
    then show ?thesis using True rest by simp
  next
    case False
    then show ?thesis using tw dw td dd2 ds(1) by simp
  qed
qed

lemma findall_append:
  "\<not> is_word r \<Longrightarrow> \<not> is_decimal r \<Longrightarrow> findall (xs @ r # rs) = findall xs @ findall (r # rs)"
proof (induction xs rule: findall.induct)
  case 1
  then show ?case by simp
next
  case (2 c cs)
  then show ?case
    by (simp add: takeWhile_stop dropWhile_stop del: findall.simps(2)) (simp add: takeWhile_stop dropWhile_stop)
qed

lemma findall_sigil_token:
  assumes "ds \<noteq> []" "\<forall>c\<in>set ds. is_decimal c" "takeWhile is_decimal ys = []"
  shows "findall (sigil # ds @ ys) = (sigil # ds) # findall ys"
proof -
  have "takeWhile is_decimal (ds @ ys) = ds" using assms by (simp add: takeWhile_all)
  moreover have "dropWhile is_decimal (ds @ ys) = ys"
    using assms by (metis dropWhile_all takeWhile_dropWhile_id append_Nil)
  ultimately show ?thesis using assms(1) by simp
qed

lemma emit_sigil_token:
  assumes "ds \<noteq> []" "\<forall>c\<in>set ds. is_decimal c"
  shows "emit (sigil # ds) = [sigil # ds, ds]"
  using assms by (simp add: emit_def isdigit_def list_all_iff decimal_classes)

lemma tokenize_text_pattern:
  assumes ws: "\<forall>c\<in>set ws. is_space c"
    and ds: "ds \<noteq> []" "\<forall>c\<in>set ds. is_decimal c"
  shows "tokenize_text (pre @ sigil # ws @ ds @ post) =
         tokenize_text pre @ [sigil # ds @ takeWhile is_decimal post, ds @ takeWhile is_decimal post] @
         tokenize_text (dropWhile is_decimal post)"
proof -
  let ?ds' = "ds @ takeWhile is_decimal post"
  let ?Y = "sub_sigil (lower (dropWhile is_decimal post))"
  have ds': "?ds' \<noteq> []" "\<forall>c\<in>set ?ds'. is_decimal c"
    using ds by (auto dest: set_takeWhileD)
  have low: "lower (pre @ sigil # ws @ ds @ post) = lower pre @ sigil # ws @ ds @ lower post"
    using lower_spaces [OF ws] lower_decimals [OF ds(2)]
    by (simp add: lower_def sigil_classes)
  have "sub_sigil (lower pre @ sigil # ws @ ds @ lower post) =
        sub_sigil (lower pre) @ sub_sigil (sigil # ws @ ds @ lower post)"
    by (rule sub_sigil_append) (simp_all add: sigil_classes)
  also have "sub_sigil (sigil # ws @ ds @ lower post) = sigil # ?ds' @ ?Y"
    using sub_sigil_pattern [OF ws ds, of "lower post"]
    by (simp add: takeWhile_decimal_lower dropWhile_decimal_lower)
  finally have sub: "sub_sigil (lower (pre @ sigil # ws @ ds @ post)) =
                     sub_sigil (lower pre) @ sigil # ?ds' @ ?Y"
    using low by simp
  have "takeWhile is_decimal (dropWhile is_decimal post) = []"
    by (induction post) auto
  then have "takeWhile is_decimal (lower (dropWhile is_decimal post)) = []"
    by (simp add: takeWhile_decimal_lower)
  then have Y: "takeWhile is_decimal ?Y = []"
    by (rule takeWhile_decimal_sub_sigil)
  have "findall (sub_sigil (lower pre) @ sigil # ?ds' @ ?Y) =
        findall (sub_sigil (lower pre)) @ findall (sigil # ?ds' @ ?Y)"
    by (rule findall_append) (simp_all add: sigil_classes)
  also have "findall (sigil # ?ds' @ ?Y) = (sigil # ?ds') # findall ?Y"
    using findall_sigil_token [OF ds' Y] by simp
  finally show ?thesis
    using sub emit_sigil_token [OF ds'] by (simp add: tokenize_text_def)
qed

text \<open>
  C8. Whenever the text contains the sigil, then whitespace or nothing, then digits, the
  tokens contain the joined token (the sigil immediately followed by the whole run of
  digits) and, right after it, the bare run of digits as a token of its own. The tokens
  before and after are those of the text before and after the pattern.
\<close>

theorem tokenize_text_sigil_digits:
  assumes "\<forall>c\<in>set ws. is_space c" and "ds \<noteq> []" and "\<forall>c\<in>set ds. is_decimal c"
  shows "tokenize_text (pre @ sigil # ws @ ds @ post) =
           tokenize_text pre @
           [sigil # ds @ takeWhile is_decimal post, ds @ takeWhile is_decimal post] @
           tokenize_text (dropWhile is_decimal post) \<and>
         sigil # ds @ takeWhile is_decimal post \<in> set (tokenize_text (pre @ sigil # ws @ ds @ post)) \<and>
         ds @ takeWhile is_decimal post \<in> set (tokenize_text (pre @ sigil # ws @ ds @ post))"
proof -
  have eq: "tokenize_text (pre @ sigil # ws @ ds @ post) =
           tokenize_text pre @
           [sigil # ds @ takeWhile is_decimal post, ds @ takeWhile is_decimal post] @
           tokenize_text (dropWhile is_decimal post)"
    using assms by (rule tokenize_text_pattern)
  then show ?thesis by simp
qed

lemmas tokenizer_eval =
  tokenize_text_def emit_def lower_def lower_char_def code_point_def is_word_def is_space_def
  is_decimal_def is_digit_char_def isdigit_def sigil_def

theorem tokenize_text_sigil_digits_witness:
  "list_all is_space '' '' \<and> ''230'' \<noteq> [] \<and> list_all is_decimal ''230'' \<and>
   tokenize_text (''see '' @ sigil # '' '' @ ''230'' @ '', ok'') =
     [''see'', sigil # ''230'', ''230'', ''ok'']"
proof -
  have h1: "\<forall>c\<in>set '' ''. is_space c" by (simp add: is_space_def code_point_def)
  have h2: "''230'' \<noteq> []" by simp
  have h3: "\<forall>c\<in>set ''230''. is_decimal c" by (simp add: is_decimal_def code_point_def)
  have pre: "tokenize_text ''see '' = [''see'']" by (simp add: tokenizer_eval)
  have post: "tokenize_text '', ok'' = [''ok'']" by (simp add: tokenizer_eval)
  have stop: "takeWhile is_decimal '', ok'' = []" "dropWhile is_decimal '', ok'' = '', ok''"
    by (simp_all add: is_decimal_def code_point_def)
  from tokenize_text_sigil_digits [OF h1 h2 h3, of "''see ''" "'', ok''"]
  have "tokenize_text (''see '' @ sigil # '' '' @ ''230'' @ '', ok'') =
          [''see'', sigil # ''230'', ''230'', ''ok'']"
    unfolding stop pre post by simp
  with h1 h2 h3 show ?thesis by (simp add: list_all_iff)
qed

text \<open>
  What the loop over the raw tokens adds for a purely numeric token of more than one
  character that does not start with the sigil: the token, then one token for each of its
  characters other than \<open>0\<close>. Every zero is left out, whatever its position.
\<close>

lemma emit_numeric:
  assumes "isdigit token" and "length token > 1" and "hd token \<noteq> sigil"
  shows "emit token = token # map (\<lambda>digit. [digit]) (filter (\<lambda>digit. digit \<noteq> CHR ''0'') token)"
proof (cases token)
  case Nil
  with assms show ?thesis by simp
next
  case (Cons c number)
  with assms show ?thesis by (simp add: emit_def cong: filter_cong)
qed

text \<open>
  C9. A purely numeric token of more than one character, not preceded by the sigil, is
  followed by each of its digits that is not a leading zero. The code does less: on the
  text \<open>100\<close> it emits the token and the digit \<open>1\<close>, and neither of the two zeros, which
  are not leading zeros.
\<close>

theorem tokenize_text_drops_every_zero:
  "tokenize_text ''100'' = [''100'', ''1''] \<and> tokenize_text ''205'' = [''205'', ''2'', ''5'']"
  by (simp add: tokenizer_eval)

section \<open>Theorems about the merge of the per-collection results\<close>

lemma interleave_inner_take:
  "int (length merged) < k \<Longrightarrow>
   interleave_inner i k d merged = take (nat k) (merged @ turn i (map snd d))"
proof (induction d arbitrary: merged)
  case Nil
  then show ?case by (simp add: turn_def)
next
  case (Cons p d)
  obtain name v where p: "p = (name, v)" by (cases p)
  show ?case
  proof (cases "i < length v")
    case True
    show ?thesis
    proof (cases "int (length (merged @ [v ! i])) \<ge> k")
      case stop: True
      with Cons.prems have "nat k = length (merged @ [v ! i])" by simp
      then have "take (nat k) ((merged @ [v ! i]) @ turn i (map snd d)) = merged @ [v ! i]"
        by (metis append_eq_conv_conj)
      with True stop p show ?thesis by (simp add: turn_def)
    next
      case go: False
      then have "int (length (merged @ [v ! i])) < k" by simp
      from Cons.IH [OF this] True go p show ?thesis by (simp add: turn_def)
    qed
  next
    case False
    with Cons p show ?thesis by (simp add: turn_def)
  qed
qed

lemma interleave_outer_take:
  "int (length merged) < k \<Longrightarrow>
   interleave_outer rounds k d merged =
   take (nat k) (merged @ concat (map (\<lambda>i. turn i (map snd d)) rounds))"
proof (induction rounds arbitrary: merged)
  case Nil
  then show ?case by simp
next
  case (Cons i rounds)
  let ?m = "interleave_inner i k d merged"
  have m: "?m = take (nat k) (merged @ turn i (map snd d))"
    using Cons.prems by (rule interleave_inner_take)
  show ?case
  proof (cases "int (length ?m) \<ge> k")
    case True
    then have "nat k \<le> length (merged @ turn i (map snd d))" using m by simp
    then have "take (nat k) ((merged @ turn i (map snd d)) @ concat (map (\<lambda>i. turn i (map snd d)) rounds)) = ?m"
      using m by simp
    with True show ?thesis by simp
  next
    case False
    then have short: "int (length ?m) < k" by simp
    have "length ?m = min (length (merged @ turn i (map snd d))) (nat k)" using m by simp
    with short have "length (merged @ turn i (map snd d)) \<le> nat k" by linarith
    then have "?m = merged @ turn i (map snd d)" using m by simp
    with Cons.IH [OF short] False show ?thesis by simp
  qed
qed

lemma map_entry_distinct:
  "distinct (map fst d) \<Longrightarrow>
   AList.map_entry k f d = map (\<lambda>(c, v). if c = k then (c, f v) else (c, v)) d"
proof (induction d)
  case Nil
  then show ?case by simp
next
  case (Cons p d)
  obtain c v where p: "p = (c, v)" by (cases p)
  show ?case
  proof (cases "c = k")
    case True
    with Cons.prems p have "k \<notin> fst ` set d" by simp
    then have "map (\<lambda>(c, v). if c = k then (c, f v) else (c, v)) d = d"
      by (induction d) auto
    with True p show ?thesis by simp
  next
    case False
    with Cons p show ?thesis by simp
  qed
qed

lemma map_entry_keys: "map fst (AList.map_entry k f d) = map fst d"
  by (induction d) auto

lemma group_by_collection_eq:
  "distinct (map fst d) \<Longrightarrow>
   group_by_collection rs d =
   map (\<lambda>(c, v). (c, v @ filter (\<lambda>r. collection_name r = c) rs)) d @
   map (\<lambda>c. (c, filter (\<lambda>r. collection_name r = c) rs))
     (filter (\<lambda>c. c \<notin> fst ` set d) (first_seen (map collection_name rs)))"
proof (induction rs arbitrary: d)
  case Nil
  then show ?case by (simp add: case_prod_unfold)
next
  case (Cons r rs)
  let ?c0 = "collection_name r"
  show ?case
  proof (cases "?c0 \<in> fst ` set d")
    case True
    let ?d' = "AList.map_entry ?c0 (\<lambda>v. v @ [r]) d"
    have dist: "distinct (map fst ?d')" using Cons.prems by (simp add: map_entry_keys)
    have keys: "fst ` set ?d' = fst ` set d"
      by (metis map_entry_keys set_map)
    have step: "group_by_collection (r # rs) d = group_by_collection rs ?d'"
      using True by simp
    have a: "map (\<lambda>(c, v). (c, v @ filter (\<lambda>r. collection_name r = c) rs)) ?d' =
             map (\<lambda>(c, v). (c, v @ filter (\<lambda>r. collection_name r = c) (r # rs))) d"
      by (simp add: map_entry_distinct [OF Cons.prems] case_prod_unfold)
    have b: "filter (\<lambda>c. c \<notin> fst ` set d) (first_seen (map collection_name (r # rs))) =
             filter (\<lambda>c. c \<notin> fst ` set d) (first_seen (map collection_name rs))"
      using True by (auto simp add: removeAll_filter_not_eq intro!: filter_cong)
    have c: "map (\<lambda>c. (c, filter (\<lambda>r. collection_name r = c) (r # rs)))
               (filter (\<lambda>c. c \<notin> fst ` set d) (first_seen (map collection_name rs))) =
             map (\<lambda>c. (c, filter (\<lambda>r. collection_name r = c) rs))
               (filter (\<lambda>c. c \<notin> fst ` set d) (first_seen (map collection_name rs)))"
      using True by (auto intro!: map_cong)
    show ?thesis
      unfolding step Cons.IH [OF dist] keys a b c ..
  next
    case False
    let ?d' = "d @ [(?c0, [r])]"
    have me: "AList.map_entry ?c0 (\<lambda>v. v @ [r]) (d @ [(?c0, [])]) = ?d'"
      using False by (induction d) auto
    have dist: "distinct (map fst ?d')" using Cons.prems False by simp
    have step: "group_by_collection (r # rs) d = group_by_collection rs ?d'"
      using False me by simp
    have a: "map (\<lambda>(c, v). (c, v @ filter (\<lambda>r. collection_name r = c) rs)) d =
             map (\<lambda>(c, v). (c, v @ filter (\<lambda>r. collection_name r = c) (r # rs))) d"
      using False by (force intro!: map_cong)
    have b: "filter (\<lambda>c. c \<notin> fst ` set d) (first_seen (map collection_name (r # rs))) =
             ?c0 # filter (\<lambda>c. c \<notin> fst ` set ?d') (first_seen (map collection_name rs))"
      using False by (auto simp add: removeAll_filter_not_eq intro!: filter_cong)
    have c: "map (\<lambda>c. (c, filter (\<lambda>r. collection_name r = c) (r # rs)))
               (filter (\<lambda>c. c \<notin> fst ` set ?d') (first_seen (map collection_name rs))) =
             map (\<lambda>c. (c, filter (\<lambda>r. collection_name r = c) rs))
               (filter (\<lambda>c. c \<notin> fst ` set ?d') (first_seen (map collection_name rs)))"
      by (auto intro!: map_cong)
    show ?thesis
      unfolding step Cons.IH [OF dist] b using a c by simp
  qed
qed

lemma group_by_collection_by_collection:
  "map snd (group_by_collection all_results []) = by_collection all_results"
  by (simp add: group_by_collection_eq by_collection_def comp_def)

lemma merge_results_interleave:
  assumes "1 \<le> k" "strategy \<noteq> ''best''"
  shows "merge_results all_results k strategy = take (nat k) (round_robin (by_collection all_results))"
proof (cases "all_results = []")
  case True
  then show ?thesis by (simp add: merge_results_def by_collection_def round_robin_def)
next
  case False
  have len: "map (\<lambda>(name, v). length v) (group_by_collection all_results []) =
             map length (by_collection all_results)"
    by (simp add: group_by_collection_by_collection [symmetric] case_prod_unfold)
  have "int (length ([] :: query_result list)) < k" using assms by simp
  from interleave_outer_take [OF this] assms False show ?thesis
    by (simp add: merge_results_def Let_def len round_robin_def group_by_collection_by_collection)
qed

lemma interleave_inner_length: "length merged \<le> length (interleave_inner i k d merged)"
proof (induction d arbitrary: merged)
  case Nil
  then show ?case by simp
next
  case (Cons p d)
  obtain name v where p: "p = (name, v)" by (cases p)
  have "length merged \<le> length (interleave_inner i k d merged)"
       "length (merged @ [v ! i]) \<le> length (interleave_inner i k d (merged @ [v ! i]))"
    using Cons.IH by blast+
  then show ?case using p by (auto simp add: Let_def)
qed

lemma interleave_outer_length: "length merged \<le> length (interleave_outer rounds k d merged)"
proof (induction rounds arbitrary: merged)
  case Nil
  then show ?case by simp
next
  case (Cons i rounds)
  have "length merged \<le> length (interleave_inner i k d merged)"
    by (rule interleave_inner_length)
  moreover have "length (interleave_inner i k d merged) \<le>
      length (interleave_outer rounds k d (interleave_inner i k d merged))"
    by (rule Cons.IH)
  ultimately show ?case by (auto simp add: Let_def)
qed

lemma fold_max_ge: "(a::nat) \<le> fold max xs a"
proof (induction xs arbitrary: a)
  case Nil
  then show ?case by simp
next
  case (Cons x xs)
  have "max x a \<le> fold max xs (max x a)" by (rule Cons.IH)
  then show ?case by simp
qed

lemma merge_results_nonempty:
  assumes "all_results \<noteq> []" "strategy \<noteq> ''best''"
  shows "merge_results all_results k strategy \<noteq> []"
proof -
  obtain r rs where all: "all_results = r # rs" using assms(1) by (cases all_results) auto
  let ?d = "group_by_collection all_results []"
  have "map snd ?d = by_collection all_results" by (rule group_by_collection_by_collection)
  then obtain vs gs where snd_d: "map snd ?d = (r # vs) # gs"
    using all by (simp add: by_collection_def)
  then obtain c d' where d: "?d = (c, r # vs) # d'"
    by (cases ?d) auto
  let ?n = "fold max (map (\<lambda>(name, v). length v) ?d) 0"
  have "max (length (r # vs)) 0 \<le> ?n"
    unfolding d using fold_max_ge [of "max (length (r # vs)) 0"] by simp
  then have "0 < ?n" by simp
  then have rounds: "[0..<?n] = 0 # [1..<?n]" by (simp add: upt_conv_Cons)
  have "1 \<le> length (interleave_inner 0 k ?d [])"
  proof -
    have "length [r] \<le> length (interleave_inner 0 k d' [r])" by (rule interleave_inner_length)
    then show ?thesis unfolding d by (simp add: Let_def)
  qed
  moreover have "length (interleave_inner 0 k ?d []) \<le>
      length (interleave_outer [1..<?n] k ?d (interleave_inner 0 k ?d []))"
    by (rule interleave_outer_length)
  ultimately have "1 \<le> length (interleave_outer [0..<?n] k ?d [])"
    unfolding rounds by (simp add: Let_def)
  then show ?thesis using assms by (auto simp add: merge_results_def Let_def)
qed

lemma merge_results_default:
  assumes "strategy \<noteq> ''best''"
  shows "merge_results all_results k strategy = merge_results all_results k ''interleave''"
  using assms by (simp add: merge_results_def)

lemma merge_results_nonpositive:
  assumes "k \<le> 0" "strategy \<noteq> ''best''" "all_results = r # rs"
  shows "merge_results all_results k strategy = [r]"
proof -
  let ?d = "group_by_collection all_results []"
  have "map snd ?d = by_collection all_results" by (rule group_by_collection_by_collection)
  then obtain vs gs where snd_d: "map snd ?d = (r # vs) # gs"
    using assms(3) by (simp add: by_collection_def)
  then obtain c d' where d: "?d = (c, r # vs) # d'"
    by (cases ?d) auto
  let ?n = "fold max (map (\<lambda>(name, v). length v) ?d) 0"
  have "max (length (r # vs)) 0 \<le> ?n"
    unfolding d using fold_max_ge [of "max (length (r # vs)) 0"] by simp
  then have "0 < ?n" by simp
  then have rounds: "[0..<?n] = 0 # [1..<?n]" by (simp add: upt_conv_Cons)
  have "interleave_inner 0 k ?d [] = [r]"
    unfolding d using assms(1) by simp
  then have "interleave_outer [0..<?n] k ?d [] = [r]"
    unfolding rounds using assms(1) by (simp add: Let_def)
  then show ?thesis using assms by (simp add: merge_results_def Let_def)
qed

lemma fold_max_foldr: "fold max xs (a::nat) = max a (foldr max xs 0)"
  by (induction xs arbitrary: a) (simp_all add: max.assoc max.left_commute)

lemma round_robin_transpose: "round_robin groups = concat (transpose groups)"
proof -
  have n: "length (transpose groups) = fold max (map length groups) 0"
  proof -
    have "foldr (\<lambda>xs. max (length xs)) groups 0 = foldr max (map length groups) 0"
      by (induction groups) simp_all
    then show ?thesis by (simp add: length_transpose fold_max_foldr)
  qed
  have "transpose groups = map (\<lambda>i. turn i groups) [0..<length (transpose groups)]"
    by (rule nth_equalityI) (simp_all add: nth_transpose turn_def)
  then show ?thesis unfolding round_robin_def n [symmetric] by simp
qed

lemma round_robin_first:
  "take (Suc 0) (round_robin ((r # vs) # gs)) = [r]"
proof -
  let ?n = "fold max (map length ((r # vs) # gs)) 0"
  have "max (length (r # vs)) 0 \<le> ?n"
    using fold_max_ge [of "max (length (r # vs)) 0" "map length gs"] by simp
  then have "0 < ?n" by simp
  then have rounds: "[0..<?n] = 0 # [Suc 0..<?n]" by (simp add: upt_conv_Cons)
  have "turn 0 ((r # vs) # gs) = r # turn 0 gs" by (simp add: turn_def)
  then show ?thesis unfolding round_robin_def rounds by simp
qed

lemma by_collection_Cons:
  "\<exists>vs gs. by_collection (r # rs) = (r # vs) # gs"
  by (simp add: by_collection_def)

lemma merge_results_any_count:
  assumes "strategy \<noteq> ''best''"
  shows "merge_results all_results k strategy =
         take (nat (max 1 k)) (round_robin (by_collection all_results))"
proof (cases "1 \<le> k")
  case True
  then have "max 1 k = k" by simp
  with merge_results_interleave [OF True assms] show ?thesis by simp
next
  case False
  then have k: "k \<le> 0" and m: "nat (max 1 k) = Suc 0" by simp_all
  show ?thesis
  proof (cases all_results)
    case Nil
    then show ?thesis by (simp add: merge_results_def by_collection_def round_robin_def)
  next
    case (Cons r rs)
    obtain vs gs where "by_collection (r # rs) = (r # vs) # gs"
      using by_collection_Cons by blast
    then have "take (Suc 0) (round_robin (by_collection all_results)) = [r]"
      using Cons round_robin_first by simp
    with merge_results_nonpositive [OF k assms Cons] m show ?thesis by simp
  qed
qed




text \<open>
  C10. Every merge strategy other than \<open>best\<close>, documented or not, gets the interleave
  policy: the output is the one of the strategy \<open>interleave\<close>, which is the round-robin over
  the collections in first-seen order, cut after the result count, or after one result when
  the count is below one. The merge has no error path, and on a non-empty input its output
  is not empty, whatever the result count.
\<close>

theorem merge_results_unknown_strategy:
  assumes "strategy \<noteq> ''best''"
  shows "merge_results all_results k strategy = merge_results all_results k ''interleave'' \<and>
         merge_results all_results k strategy =
           take (nat (max 1 k)) (round_robin (by_collection all_results)) \<and>
         (all_results \<noteq> [] \<longrightarrow> merge_results all_results k strategy \<noteq> [])"
proof (intro conjI)
  show "merge_results all_results k strategy = merge_results all_results k ''interleave''"
    using assms by (rule merge_results_default)
  show "merge_results all_results k strategy =
          take (nat (max 1 k)) (round_robin (by_collection all_results))"
    using assms by (rule merge_results_any_count)
  show "all_results \<noteq> [] \<longrightarrow> merge_results all_results k strategy \<noteq> []"
    using assms merge_results_nonempty [of all_results strategy k] by blast
qed

theorem merge_results_unknown_strategy_witness:
  "''newest'' \<noteq> ''best'' \<and>
   [sample_result ''a1'' ''A'' (9 / 10), sample_result ''a2'' ''A'' (8 / 10),
    sample_result ''a3'' ''A'' (7 / 10), sample_result ''b1'' ''B'' (6 / 10)] \<noteq> [] \<and>
   merge_results
     [sample_result ''a1'' ''A'' (9 / 10), sample_result ''a2'' ''A'' (8 / 10),
      sample_result ''a3'' ''A'' (7 / 10), sample_result ''b1'' ''B'' (6 / 10)] 3 ''newest'' =
     [sample_result ''a1'' ''A'' (9 / 10), sample_result ''b1'' ''B'' (6 / 10),
      sample_result ''a2'' ''A'' (8 / 10)]"
proof -
  let ?all = "[sample_result ''a1'' ''A'' (9 / 10), sample_result ''a2'' ''A'' (8 / 10),
      sample_result ''a3'' ''A'' (7 / 10), sample_result ''b1'' ''B'' (6 / 10)]"
  have h: "''newest'' \<noteq> ''best''" by simp
  have ne: "?all \<noteq> []" by simp
  have groups: "by_collection ?all =
      [[sample_result ''a1'' ''A'' (9 / 10), sample_result ''a2'' ''A'' (8 / 10),
        sample_result ''a3'' ''A'' (7 / 10)], [sample_result ''b1'' ''B'' (6 / 10)]]"
    by (simp add: by_collection_def sample_result_def)
  have "merge_results ?all 3 ''newest'' = take (nat (max 1 3)) (round_robin (by_collection ?all))"
    using merge_results_unknown_strategy [OF h, of ?all 3] by (elim conjE)
  also have "\<dots> = [sample_result ''a1'' ''A'' (9 / 10), sample_result ''b1'' ''B'' (6 / 10),
      sample_result ''a2'' ''A'' (8 / 10)]"
    unfolding groups by (simp add: round_robin_def turn_def upt_rec)
  finally show ?thesis using h ne by simp
qed

section \<open>Theorems about the lexical index\<close>

lemma consistent_empty: "consistent [] Map.empty"
  by (simp add: consistent_def)

lemma index_wf_init: "index_wf init_manager"
  by (simp add: index_wf_def init_manager_def consistent_empty)

lemma upsert_existing:
  assumes "consistent ns idmap" "idmap (id' c) = Some idx"
  shows "upsert c (ns, idmap) = Inr (ns[idx := c], idmap)"
    and "consistent (ns[idx := c]) idmap"
    and "map id' (ns[idx := c]) = map id' ns"
proof -
  have idx: "idx < length ns" "id' (ns ! idx) = id' c"
    using assms by (auto simp add: consistent_def)
  then show "upsert c (ns, idmap) = Inr (ns[idx := c], idmap)"
    using assms(2) by (simp add: upsert_def)
  show ids: "map id' (ns[idx := c]) = map id' ns"
    using idx by (simp add: map_update list_update_same_conv)
  have "\<And>j. j < length ns \<Longrightarrow> id' (ns[idx := c] ! j) = id' (ns ! j)"
    using idx by (auto simp add: nth_list_update)
  then show "consistent (ns[idx := c]) idmap"
    using assms(1) by (simp add: consistent_def)
qed

lemma consistentD:
  assumes "consistent ns idmap"
  shows "\<And>i idx. idmap i = Some idx \<Longrightarrow> idx < length ns \<and> id' (ns ! idx) = i"
    and "\<And>idx. idx < length ns \<Longrightarrow> idmap (id' (ns ! idx)) = Some idx"
  using assms unfolding consistent_def by blast+

lemma upsert_fresh:
  assumes "consistent ns idmap" "idmap (id' c) = None"
  shows "upsert c (ns, idmap) = Inr (ns @ [c], idmap(id' c \<mapsto> length ns))"
    and "consistent (ns @ [c]) (idmap(id' c \<mapsto> length ns))"
proof -
  show "upsert c (ns, idmap) = Inr (ns @ [c], idmap(id' c \<mapsto> length ns))"
    using assms(2) by (simp add: upsert_def)
  note D = consistentD [OF assms(1)]
  have fresh: "id' (ns ! j) \<noteq> id' c" if "j < length ns" for j
    using D(2) [OF that] assms(2) by auto
  show "consistent (ns @ [c]) (idmap(id' c \<mapsto> length ns))"
    unfolding consistent_def
  proof (intro conjI allI impI)
    fix i idx
    assume a: "(idmap(id' c \<mapsto> length ns)) i = Some idx"
    have "idx < length (ns @ [c]) \<and> id' ((ns @ [c]) ! idx) = i"
    proof (cases "i = id' c")
      case True
      with a have "idx = length ns" by simp
      with True show ?thesis by simp
    next
      case False
      with a have "idmap i = Some idx" by simp
      from D(1) [OF this] show ?thesis by (simp add: nth_append)
    qed
    then show "idx < length (ns @ [c])" and "id' ((ns @ [c]) ! idx) = i" by simp_all
  next
    fix idx
    assume a: "idx < length (ns @ [c])"
    show "(idmap(id' c \<mapsto> length ns)) (id' ((ns @ [c]) ! idx)) = Some idx"
    proof (cases "idx < length ns")
      case True
      then have "(ns @ [c]) ! idx = ns ! idx" by (simp add: nth_append)
      with fresh [OF True] D(2) [OF True] show ?thesis by simp
    next
      case False
      with a have "idx = length ns" by simp
      then show ?thesis by simp
    qed
  qed
qed

lemma removeAll_first_seen: "removeAll x (first_seen ys) = first_seen (removeAll x ys)"
proof (induction ys)
  case Nil
  then show ?case by simp
next
  case (Cons y ys)
  have comm: "removeAll x (removeAll y zs) = removeAll y (removeAll x zs)" for zs :: "'a list"
    by (induction zs) auto
  have idem: "removeAll x (removeAll x (first_seen ys)) = removeAll x (first_seen ys)"
    by (simp add: removeAll_filter_not_eq)
  show ?case
  proof (cases "x = y")
    case True
    then show ?thesis using Cons idem by simp
  next
    case False
    then show ?thesis using Cons comm by simp
  qed
qed

lemma upsert_all_spec:
  assumes "consistent ns idmap"
  shows "\<exists>ns' idmap'. upsert_all new (ns, idmap) = ((ns', idmap'), None) \<and> consistent ns' idmap' \<and>
           (\<forall>i idx. idmap i = Some idx \<longrightarrow> idmap' i = Some idx) \<and>
           (\<forall>i idx. idmap i = Some idx \<longrightarrow> i \<notin> id' ` set new \<longrightarrow> ns' ! idx = ns ! idx) \<and>
           (\<forall>c\<in>set new. \<exists>idx. idmap' (id' c) = Some idx \<and>
                ns' ! idx = last (filter (\<lambda>x. id' x = id' c) new)) \<and>
           map id' ns' = map id' ns @ first_seen (filter (\<lambda>i. idmap i = None) (map id' new))"
  using assms
proof (induction new arbitrary: ns idmap)
  case Nil
  then show ?case by simp
next
  case (Cons c rest)
  obtain ns1 idmap1 where step: "upsert c (ns, idmap) = Inr (ns1, idmap1)"
    and cons1: "consistent ns1 idmap1"
    and keep: "\<And>i idx. idmap i = Some idx \<Longrightarrow> idmap1 i = Some idx"
    and same: "\<And>i idx. idmap i = Some idx \<Longrightarrow> i \<noteq> id' c \<Longrightarrow> ns1 ! idx = ns ! idx"
    and here: "\<exists>idx. idmap1 (id' c) = Some idx \<and> ns1 ! idx = c"
    and ids: "map id' ns1 @ first_seen (filter (\<lambda>i. idmap1 i = None) (map id' rest)) =
              map id' ns @ first_seen (filter (\<lambda>i. idmap i = None) (map id' (c # rest)))"
  proof (cases "idmap (id' c)")
    case None
    note f = upsert_fresh [OF Cons.prems None]
    have a: "\<And>i idx. idmap i = Some idx \<Longrightarrow> (idmap(id' c \<mapsto> length ns)) i = Some idx"
      using None by auto
    have b: "\<And>i idx. idmap i = Some idx \<Longrightarrow> i \<noteq> id' c \<Longrightarrow> (ns @ [c]) ! idx = ns ! idx"
      using consistentD(1) [OF Cons.prems] by (simp add: nth_append)
    have c: "\<exists>idx. (idmap(id' c \<mapsto> length ns)) (id' c) = Some idx \<and> (ns @ [c]) ! idx = c"
      by simp
    have "filter (\<lambda>i. (idmap(id' c \<mapsto> length ns)) i = None) (map id' rest) =
          removeAll (id' c) (filter (\<lambda>i. idmap i = None) (map id' rest))"
      by (auto simp add: removeAll_filter_not_eq intro!: filter_cong)
    then have d: "map id' (ns @ [c]) @
          first_seen (filter (\<lambda>i. (idmap(id' c \<mapsto> length ns)) i = None) (map id' rest)) =
          map id' ns @ first_seen (filter (\<lambda>i. idmap i = None) (map id' (c # rest)))"
      using None by (simp add: removeAll_first_seen)
    show ?thesis by (rule that [OF f(1) f(2) a b c d])
  next
    case (Some idx)
    note e = upsert_existing [OF Cons.prems Some]
    have b: "ns[idx := c] ! j = ns ! j" if "idmap i = Some j" "i \<noteq> id' c" for i j
    proof -
      have "id' (ns ! j) = i" "id' (ns ! idx) = id' c"
        using consistentD(1) [OF Cons.prems] Some that(1) by auto
      with that(2) have "j \<noteq> idx" by auto
      then show ?thesis by simp
    qed
    have "idx < length ns" using consistentD(1) [OF Cons.prems Some] by simp
    then have c: "\<exists>j. idmap (id' c) = Some j \<and> ns[idx := c] ! j = c"
      using Some by simp
    have d: "map id' (ns[idx := c]) @ first_seen (filter (\<lambda>i. idmap i = None) (map id' rest)) =
          map id' ns @ first_seen (filter (\<lambda>i. idmap i = None) (map id' (c # rest)))"
      using Some e(3) by simp
    have a: "\<And>i j. idmap i = Some j \<Longrightarrow> idmap i = Some j" by simp
    show ?thesis by (rule that [OF e(1) e(2) a b c d])
  qed
  from Cons.IH [OF cons1] obtain ns' idmap' where
    IH: "upsert_all rest (ns1, idmap1) = ((ns', idmap'), None) \<and> consistent ns' idmap' \<and>
           (\<forall>i idx. idmap1 i = Some idx \<longrightarrow> idmap' i = Some idx) \<and>
           (\<forall>i idx. idmap1 i = Some idx \<longrightarrow> i \<notin> id' ` set rest \<longrightarrow> ns' ! idx = ns1 ! idx) \<and>
           (\<forall>c\<in>set rest. \<exists>idx. idmap' (id' c) = Some idx \<and>
                ns' ! idx = last (filter (\<lambda>x. id' x = id' c) rest)) \<and>
           map id' ns' = map id' ns1 @ first_seen (filter (\<lambda>i. idmap1 i = None) (map id' rest))"
    by (elim exE)
  have run: "upsert_all rest (ns1, idmap1) = ((ns', idmap'), None)"
    and cons': "consistent ns' idmap'"
    and ids': "map id' ns' = map id' ns1 @ first_seen (filter (\<lambda>i. idmap1 i = None) (map id' rest))"
    using IH by simp_all
  have keep': "\<And>i idx. idmap1 i = Some idx \<Longrightarrow> idmap' i = Some idx"
    using IH by blast
  have same': "\<And>i idx. idmap1 i = Some idx \<Longrightarrow> i \<notin> id' ` set rest \<Longrightarrow> ns' ! idx = ns1 ! idx"
    using IH by blast
  have here': "\<And>x. x \<in> set rest \<Longrightarrow> \<exists>idx. idmap' (id' x) = Some idx \<and>
                ns' ! idx = last (filter (\<lambda>y. id' y = id' x) rest)"
    using IH by blast
  have 1: "upsert_all (c # rest) (ns, idmap) = ((ns', idmap'), None)"
    using step run by simp
  have 2: "\<forall>i idx. idmap i = Some idx \<longrightarrow> idmap' i = Some idx"
    using keep keep' by blast
  have 3: "\<forall>i idx. idmap i = Some idx \<longrightarrow> i \<notin> id' ` set (c # rest) \<longrightarrow> ns' ! idx = ns ! idx"
  proof (intro allI impI)
    fix i idx
    assume i: "idmap i = Some idx" "i \<notin> id' ` set (c # rest)"
    then have "ns' ! idx = ns1 ! idx" using keep same' by auto
    also have "ns1 ! idx = ns ! idx" using i same by auto
    finally show "ns' ! idx = ns ! idx" .
  qed
  have 4: "\<forall>x\<in>set (c # rest). \<exists>idx. idmap' (id' x) = Some idx \<and>
                ns' ! idx = last (filter (\<lambda>y. id' y = id' x) (c # rest))"
  proof
    fix x
    assume x: "x \<in> set (c # rest)"
    show "\<exists>idx. idmap' (id' x) = Some idx \<and> ns' ! idx = last (filter (\<lambda>y. id' y = id' x) (c # rest))"
    proof (cases "id' x \<in> id' ` set rest")
      case True
      then obtain y where y: "y \<in> set rest" "id' y = id' x" by auto
      then have ne: "filter (\<lambda>z. id' z = id' x) rest \<noteq> []"
        by (auto simp add: filter_empty_conv)
      from here' [OF y(1)] y(2) obtain idx where
        "idmap' (id' x) = Some idx" "ns' ! idx = last (filter (\<lambda>z. id' z = id' x) rest)"
        by auto
      then show ?thesis using ne by auto
    next
      case False
      with x have xc: "x = c" by auto
      from here obtain idx where idx: "idmap1 (id' c) = Some idx" "ns1 ! idx = c" by blast
      have "idmap' (id' c) = Some idx" using idx keep' by blast
      moreover have "ns' ! idx = c" using same' [OF idx(1)] False xc idx(2) by simp
      moreover have "filter (\<lambda>y. id' y = id' c) rest = []"
      proof -
        have "id' y \<noteq> id' c" if "y \<in> set rest" for y
          using that False xc by (metis imageI)
        then show ?thesis by (simp add: filter_empty_conv)
      qed
      ultimately show ?thesis using xc by simp
    qed
  qed
  have 5: "map id' ns' = map id' ns @ first_seen (filter (\<lambda>i. idmap i = None) (map id' (c # rest)))"
    using ids' ids by (rule trans)
  show ?case
    by (intro exI conjI) (fact 1, fact cons', fact 2, fact 3, fact 4, fact 5)
qed


lemma init_manager_wf: "index_wf init_manager \<and> file_wf NoFile"
  by (simp add: index_wf_def init_manager_def consistent_def file_wf_def)

lemma load_if_needed_wf:
  assumes "index_wf m" and "file_wf f"
  shows "index_wf (load_if_needed f m)"
proof (cases f)
  case (Stored data)
  with assms show ?thesis
    by (auto simp add: load_if_needed_def load_def index_wf_def file_wf_def split: option.splits)
qed (use assms in \<open>simp_all add: load_if_needed_def load_def\<close>)

lemma save_wf:
  assumes "index_wf m" and "file_wf f"
  shows "file_wf (save w m f)"
  using assms by (cases w) (simp_all add: save_def file_wf_def pickle_def index_wf_def)

lemma add_nodes_invariant:
  assumes "index_wf m" and "file_wf f" and "add_nodes f w m new_nodes = (m', f', raised)"
  shows "index_wf m' \<and> file_wf f'"
proof (cases "new_nodes = []")
  case True
  with assms show ?thesis by (simp add: add_nodes_def)
next
  case False
  let ?m1 = "load_if_needed f m"
  have "index_wf ?m1" using assms(1,2) by (rule load_if_needed_wf)
  then have c: "consistent (nodes ?m1) (node_id_map ?m1)" by (simp add: index_wf_def)
  from upsert_all_spec [OF c, of new_nodes] obtain ns' idmap' where
    run: "upsert_all new_nodes (nodes ?m1, node_id_map ?m1) = ((ns', idmap'), None)"
    and c': "consistent ns' idmap'"
    by blast
  let ?m2 = "?m1\<lparr>nodes := ns', node_id_map := idmap'\<rparr>"
  have wf2: "index_wf ?m2" using c' by (simp add: index_wf_def)
  let ?tokens = "map (\<lambda>node. tokenize_text (text node)) ns'"
  let ?m3 = "?m2\<lparr>bm25_index := Some ?tokens\<rparr>"
  have wf3: "index_wf ?m3" using c' by (simp add: index_wf_def)
  show ?thesis
  proof (cases "concat ?tokens = []")
    case True
    then have "add_nodes f w m new_nodes = (?m2, f, Some ZeroDivisionError)"
      using False run by (simp add: add_nodes_def Let_def BM25Okapi_def)
    with assms(3) [symmetric] have "(m', f', raised) = (?m2, f, Some ZeroDivisionError)"
      by (rule trans)
    then have "m' = ?m2" and "f' = f" by blast+
    then show ?thesis using wf2 assms(2) by simp
  next
    case nonempty: False
    then have "add_nodes f w m new_nodes = (?m3, save w ?m3 f, None)"
      using False run by (simp add: add_nodes_def Let_def BM25Okapi_def)
    with assms(3) [symmetric] have "(m', f', raised) = (?m3, save w ?m3 f, None)"
      by (rule trans)
    then have "m' = ?m3" and "f' = save w ?m3 f" by blast+
    then show ?thesis using wf3 save_wf [OF wf3 assms(2)] by simp
  qed
qed

text \<open>
  C7. On a well-formed index (well-formedness holds of the initial manager and is kept by
  every call, see \<open>init_manager_wf\<close> and \<open>add_nodes_invariant\<close>), the loop of \<^verbatim>\<open>add_nodes\<close>
  runs to its end and leaves the index well formed. Every identifier that was in the index
  keeps its position, and keeps its node unless one of the added chunks carries that
  identifier; the node stored for the identifier of an added chunk is the last added chunk
  with that identifier; the identifiers of the corpus are the old ones, in place, followed
  by the fresh ones in the order they were first added; when every added identifier was
  already there, the corpus size does not change. All of this holds of the manager after the
  call whether or not the rebuild of the scoring structure raises: it raises
  \<^verbatim>\<open>ZeroDivisionError\<close> exactly when no chunk of the corpus has a token, and then the old
  scoring structure stays and nothing is saved; otherwise the scoring structure is rebuilt
  from the whole corpus and the save is attempted.
\<close>

theorem add_nodes_upsert:
  assumes "new_nodes \<noteq> []" and "index_wf (load_if_needed f m)"
  shows "\<exists>m' f' raised. add_nodes f w m new_nodes = (m', f', raised) \<and> index_wf m' \<and>
           (\<forall>i idx. node_id_map (load_if_needed f m) i = Some idx \<longrightarrow>
              node_id_map m' i = Some idx \<and>
              (i \<notin> id' ` set new_nodes \<longrightarrow> nodes m' ! idx = nodes (load_if_needed f m) ! idx)) \<and>
           (\<forall>c\<in>set new_nodes. \<exists>idx. node_id_map m' (id' c) = Some idx \<and>
              nodes m' ! idx = last (filter (\<lambda>x. id' x = id' c) new_nodes)) \<and>
           map id' (nodes m') = map id' (nodes (load_if_needed f m)) @
             first_seen (filter (\<lambda>i. node_id_map (load_if_needed f m) i = None) (map id' new_nodes)) \<and>
           (id' ` set new_nodes \<subseteq> dom (node_id_map (load_if_needed f m)) \<longrightarrow>
              length (nodes m') = length (nodes (load_if_needed f m))) \<and>
           (concat (map (\<lambda>node. tokenize_text (text node)) (nodes m')) \<noteq> [] \<longrightarrow>
              raised = None \<and>
              bm25_index m' = Some (map (\<lambda>node. tokenize_text (text node)) (nodes m')) \<and>
              f' = save w m' f) \<and>
           (concat (map (\<lambda>node. tokenize_text (text node)) (nodes m')) = [] \<longrightarrow>
              raised = Some ZeroDivisionError \<and>
              bm25_index m' = bm25_index (load_if_needed f m) \<and> f' = f)"
proof -
  let ?m1 = "load_if_needed f m"
  let ?tok = "\<lambda>node. tokenize_text (text node)"
  have c: "consistent (nodes ?m1) (node_id_map ?m1)"
    using assms(2) by (simp add: index_wf_def)
  from upsert_all_spec [OF c, of new_nodes] obtain ns' idmap' where
    IH: "upsert_all new_nodes (nodes ?m1, node_id_map ?m1) = ((ns', idmap'), None) \<and>
         consistent ns' idmap' \<and>
         (\<forall>i idx. node_id_map ?m1 i = Some idx \<longrightarrow> idmap' i = Some idx) \<and>
         (\<forall>i idx. node_id_map ?m1 i = Some idx \<longrightarrow> i \<notin> id' ` set new_nodes \<longrightarrow>
            ns' ! idx = nodes ?m1 ! idx) \<and>
         (\<forall>c\<in>set new_nodes. \<exists>idx. idmap' (id' c) = Some idx \<and>
            ns' ! idx = last (filter (\<lambda>x. id' x = id' c) new_nodes)) \<and>
         map id' ns' = map id' (nodes ?m1) @
           first_seen (filter (\<lambda>i. node_id_map ?m1 i = None) (map id' new_nodes))"
    by (elim exE)
  let ?m2 = "?m1\<lparr>nodes := ns', node_id_map := idmap'\<rparr>"
  let ?m3 = "?m2\<lparr>bm25_index := Some (map ?tok ns')\<rparr>"
  let ?empty = "concat (map ?tok ns') = []"
  let ?m' = "if ?empty then ?m2 else ?m3"
  let ?f' = "if ?empty then f else save w ?m3 f"
  let ?raised = "if ?empty then Some ZeroDivisionError else None"
  have run: "add_nodes f w m new_nodes = (?m', ?f', ?raised)"
    using assms(1) IH by (simp add: add_nodes_def Let_def BM25Okapi_def)
  have n: "nodes ?m' = ns'" and i: "node_id_map ?m' = idmap'" by simp_all
  have ids: "map id' ns' = map id' (nodes ?m1) @
           first_seen (filter (\<lambda>i. node_id_map ?m1 i = None) (map id' new_nodes))"
    using IH by simp
  have len: "length ns' = length (nodes ?m1)"
    if "id' ` set new_nodes \<subseteq> dom (node_id_map ?m1)"
  proof -
    have "filter (\<lambda>i. node_id_map ?m1 i = None) (map id' new_nodes) = []"
      using that by (auto simp add: filter_empty_conv)
    with ids have "map id' ns' = map id' (nodes ?m1)" by simp
    then show ?thesis by (rule map_eq_imp_length_eq)
  qed
  show ?thesis
  proof (intro exI [of _ ?m'] exI [of _ ?f'] exI [of _ ?raised] conjI)
    show "add_nodes f w m new_nodes = (?m', ?f', ?raised)" by (rule run)
    show "index_wf ?m'" using IH unfolding index_wf_def n i by simp
    show "\<forall>i idx. node_id_map ?m1 i = Some idx \<longrightarrow>
              node_id_map ?m' i = Some idx \<and>
              (i \<notin> id' ` set new_nodes \<longrightarrow> nodes ?m' ! idx = nodes ?m1 ! idx)"
      using IH unfolding n i by simp
    show "\<forall>c\<in>set new_nodes. \<exists>idx. node_id_map ?m' (id' c) = Some idx \<and>
              nodes ?m' ! idx = last (filter (\<lambda>x. id' x = id' c) new_nodes)"
      using IH unfolding n i by simp
    show "map id' (nodes ?m') = map id' (nodes ?m1) @
             first_seen (filter (\<lambda>i. node_id_map ?m1 i = None) (map id' new_nodes))"
      using ids unfolding n by simp
    show "id' ` set new_nodes \<subseteq> dom (node_id_map ?m1) \<longrightarrow>
              length (nodes ?m') = length (nodes ?m1)"
      using len unfolding n by simp
    show "concat (map ?tok (nodes ?m')) \<noteq> [] \<longrightarrow>
              ?raised = None \<and> bm25_index ?m' = Some (map ?tok (nodes ?m')) \<and> ?f' = save w ?m' f"
      unfolding n by simp
    show "concat (map ?tok (nodes ?m')) = [] \<longrightarrow>
              ?raised = Some ZeroDivisionError \<and> bm25_index ?m' = bm25_index ?m1 \<and> ?f' = f"
      unfolding n by simp
  qed
qed

lemma sample_index_wf: "index_wf sample_index"
  by (simp add: index_wf_def consistent_def sample_index_def sample_node_def less_Suc_eq)

lemma add_nodes_sample:
  "add_nodes NoFile Written sample_index [sample_node ''a'' ''new'', sample_node ''c'' ''y''] =
    (\<lparr>bm25_index = Some [[''new''], [''x''], [''y'']],
      nodes = [sample_node ''a'' ''new'', sample_node ''b'' ''x'', sample_node ''c'' ''y''],
      node_id_map = [''a'' \<mapsto> 0, ''b'' \<mapsto> 1, ''c'' \<mapsto> 2]\<rparr>,
     Stored (pickle \<lparr>bm25_index = Some [[''new''], [''x''], [''y'']],
      nodes = [sample_node ''a'' ''new'', sample_node ''b'' ''x'', sample_node ''c'' ''y''],
      node_id_map = [''a'' \<mapsto> 0, ''b'' \<mapsto> 1, ''c'' \<mapsto> 2]\<rparr>), None)"
  by (simp add: add_nodes_def load_if_needed_def sample_index_def sample_node_def upsert_def save_def
     BM25Okapi_def Let_def numeral_2_eq_2 tokenize_text_def emit_def lower_def lower_char_def
     code_point_def is_word_def is_space_def is_decimal_def is_digit_char_def isdigit_def sigil_def)

lemma add_nodes_no_token:
  "add_nodes NoFile Written init_manager [sample_node ''a'' ''--'']  =
    (\<lparr>bm25_index = None, nodes = [sample_node ''a'' ''--''], node_id_map = [''a'' \<mapsto> 0]\<rparr>,
     NoFile, Some ZeroDivisionError)"
  by (simp add: add_nodes_def load_if_needed_def init_manager_def sample_node_def upsert_def
     BM25Okapi_def Let_def tokenize_text_def emit_def lower_def lower_char_def
     code_point_def is_word_def is_space_def is_decimal_def is_digit_char_def isdigit_def sigil_def)

theorem add_nodes_upsert_witness:
  "[sample_node ''a'' ''new'', sample_node ''c'' ''y''] \<noteq> [] \<and>
   index_wf (load_if_needed NoFile sample_index) \<and>
   (\<exists>m' f'. add_nodes NoFile Written sample_index
              [sample_node ''a'' ''new'', sample_node ''c'' ''y''] = (m', f', None) \<and>
         index_wf m' \<and>
         nodes m' = [sample_node ''a'' ''new'', sample_node ''b'' ''x'', sample_node ''c'' ''y''] \<and>
         node_id_map m' = [''a'' \<mapsto> 0, ''b'' \<mapsto> 1, ''c'' \<mapsto> 2] \<and>
         f' = Stored (pickle m'))"
proof -
  let ?new = "[sample_node ''a'' ''new'', sample_node ''c'' ''y'']"
  have m1: "load_if_needed NoFile sample_index = sample_index"
    by (simp add: load_if_needed_def)
  have h1: "?new \<noteq> []" by simp
  have h2: "index_wf (load_if_needed NoFile sample_index)"
    unfolding m1 by (rule sample_index_wf)
  have "\<exists>m' f' raised. add_nodes NoFile Written sample_index ?new = (m', f', raised) \<and> index_wf m'"
    using add_nodes_upsert [OF h1 h2, of Written]
    apply (elim exE conjE)
    apply (intro exI conjI)
     apply assumption
    apply assumption
    done
  then obtain m' f' raised where run: "add_nodes NoFile Written sample_index ?new = (m', f', raised)"
    and wf: "index_wf m'"
    by blast
  from run have r: "raised = None"
    and n: "nodes m' = [sample_node ''a'' ''new'', sample_node ''b'' ''x'', sample_node ''c'' ''y'']"
    and i: "node_id_map m' = [''a'' \<mapsto> 0, ''b'' \<mapsto> 1, ''c'' \<mapsto> 2]"
    and f: "f' = Stored (pickle m')"
    unfolding add_nodes_sample by auto
  have "add_nodes NoFile Written sample_index ?new = (m', f', None) \<and> index_wf m' \<and>
        nodes m' = [sample_node ''a'' ''new'', sample_node ''b'' ''x'', sample_node ''c'' ''y''] \<and>
        node_id_map m' = [''a'' \<mapsto> 0, ''b'' \<mapsto> 1, ''c'' \<mapsto> 2] \<and> f' = Stored (pickle m')"
    using run wf r n i f by simp
  then have "\<exists>m' f'. add_nodes NoFile Written sample_index ?new = (m', f', None) \<and> index_wf m' \<and>
        nodes m' = [sample_node ''a'' ''new'', sample_node ''b'' ''x'', sample_node ''c'' ''y''] \<and>
        node_id_map m' = [''a'' \<mapsto> 0, ''b'' \<mapsto> 1, ''c'' \<mapsto> 2] \<and> f' = Stored (pickle m')"
    by blast
  with h1 h2 show ?thesis by blast
qed

section \<open>Theorems about the fusion retriever\<close>




























section \<open>Theorems about the query engine\<close>

lemma extend_all_eq:
  "extend_all outcomes acc =
   acc @ concat (map (\<lambda>result. case result of Inl e \<Rightarrow> [] | Inr rs \<Rightarrow> rs) outcomes)"
  by (induction outcomes acc rule: extend_all.induct) simp_all



lemma gather_Cons:
  "gather env cache qt k mr fl (name # rest) =
     (case query_single_collection_interface env cache qt name k mr fl of
        Inl e \<Rightarrow> (Inl e # fst (gather env cache qt k mr fl rest),
                  snd (gather env cache qt k mr fl rest))
      | Inr p \<Rightarrow> (Inr (fst p) # fst (gather env (snd p) qt k mr fl rest),
                  snd (gather env (snd p) qt k mr fl rest)))"
  by (simp split: sum.splits prod.splits)


lemma gather_length: "length (fst (gather env cache qt k mr fl names)) = length names"
  by (induction names arbitrary: cache) (simp_all add: gather_Cons del: gather.simps(2) split: sum.splits)

lemma gather_append:
  "gather env cache qt k mr fl (xs @ ys) =
   (fst (gather env cache qt k mr fl xs) @
      fst (gather env (snd (gather env cache qt k mr fl xs)) qt k mr fl ys),
    snd (gather env (snd (gather env cache qt k mr fl xs)) qt k mr fl ys))"
  by (induction xs arbitrary: cache) (simp_all add: gather_Cons del: gather.simps(2) split: sum.splits)







lemma query_eq:
  assumes "chroma_client env" "embeddings env"
    and "target_collections env collection_names = Inr targets"
  shows "query env cache qt collection_names (Some cfg) =
         Inr (merge_results
                (extend_all (fst (gather env cache qt (n_results cfg) (min_relevance cfg)
                   (filters cfg) targets)) [])
                (n_results cfg) (merge_strategy cfg),
              snd (gather env cache qt (n_results cfg) (min_relevance cfg) (filters cfg) targets))"
proof (cases "targets = []")
  case True
  with assms show ?thesis by (simp add: query_def merge_results_def)
next
  case False
  with assms show ?thesis by (simp add: query_def split: prod.splits)
qed


lemma target_collections_given:
  "names \<noteq> [] \<Longrightarrow> target_collections env (Some names) = Inr names"
  by (cases names) (simp_all add: target_collections_def)

lemma interface_not_found:
  assumes "cache_get env c (name, qt, k, fl) = None" "\<not> get_collection_ok (collection env name)"
  shows "query_single_collection_interface env c qt name k mr fl = Inr ([], c)"
  using assms by (simp add: query_single_collection_interface_def get_retriever_for_collection_def)

lemma interface_fallback:
  assumes "cache_get env c (name, qt, k, fl) = None" "get_collection_ok (collection env name)"
    "\<not> index_ok (collection env name)"
  shows "query_single_collection_interface env c qt name k mr fl =
         query_single_collection env c qt name k mr fl"
  using assms by (simp add: query_single_collection_interface_def get_retriever_for_collection_def)

lemma fallback_fails:
  assumes "cache_get env c (name, qt, k, fl) = None" "get_collection_ok (collection env name)"
    "doc_count (collection env name) = 0 \<or> \<not> embed_ok (collection env name) \<or>
     isl (vector_query (collection env name))"
  shows "isl (query_single_collection env c qt name k mr fl)"
  using assms by (auto simp add: query_single_collection_def Let_def split: sum.splits)

text \<open>
  C4. In an initialised engine, a target collection whose retrieval fails (its coroutine
  raises, or returns nothing and leaves the cache alone) contributes nothing: the query over
  the targets is the query over the other targets, and it returns a result, never an
  exception. A cache miss on a collection that is not found gives the empty list; a cache
  miss on a collection whose hybrid retriever cannot be built and whose fallback finds the
  collection empty, cannot embed the query or fails in the vector query raises inside the
  coroutine, and the gather turns the exception into a skipped entry.
\<close>

theorem query_partial_failure:
  assumes "chroma_client env" and "embeddings env" and "pre @ post \<noteq> []"
    and "isl (query_single_collection_interface env
               (snd (gather env cache qt (n_results cfg) (min_relevance cfg) (filters cfg) pre))
               qt name (n_results cfg) (min_relevance cfg) (filters cfg)) \<or>
         query_single_collection_interface env
               (snd (gather env cache qt (n_results cfg) (min_relevance cfg) (filters cfg) pre))
               qt name (n_results cfg) (min_relevance cfg) (filters cfg) =
           Inr ([], snd (gather env cache qt (n_results cfg) (min_relevance cfg) (filters cfg) pre))"
  shows "query env cache qt (Some (pre @ name # post)) (Some cfg) =
           query env cache qt (Some (pre @ post)) (Some cfg) \<and>
         (\<exists>res c'. query env cache qt (Some (pre @ name # post)) (Some cfg) = Inr (res, c')) \<and>
         (cache_get env c (name, qt, k, fl) = None \<and> \<not> get_collection_ok (collection env name) \<longrightarrow>
            query_single_collection_interface env c qt name k mr fl = Inr ([], c)) \<and>
         (cache_get env c (name, qt, k, fl) = None \<and> get_collection_ok (collection env name) \<and>
          \<not> index_ok (collection env name) \<and>
          (doc_count (collection env name) = 0 \<or> \<not> embed_ok (collection env name) \<or>
           isl (vector_query (collection env name))) \<longrightarrow>
            isl (query_single_collection_interface env c qt name k mr fl))"
proof (intro conjI)
  let ?k = "n_results cfg" and ?mr = "min_relevance cfg" and ?fl = "filters cfg"
  let ?c1 = "snd (gather env cache qt ?k ?mr ?fl pre)"
  let ?one = "query_single_collection_interface env ?c1 qt name ?k ?mr ?fl"
  have t1: "target_collections env (Some (pre @ name # post)) = Inr (pre @ name # post)"
    by (rule target_collections_given) simp
  have t2: "target_collections env (Some (pre @ post)) = Inr (pre @ post)"
    using assms(3) by (rule target_collections_given)
  have g: "fst (gather env ?c1 qt ?k ?mr ?fl (name # post)) =
             (case ?one of Inl e \<Rightarrow> Inl e | Inr p \<Rightarrow> Inr (fst p)) #
               fst (gather env ?c1 qt ?k ?mr ?fl post) \<and>
           snd (gather env ?c1 qt ?k ?mr ?fl (name # post)) = snd (gather env ?c1 qt ?k ?mr ?fl post)"
  proof (cases ?one)
    case (Inl e)
    then show ?thesis by (simp add: gather_Cons del: gather.simps(2))
  next
    case (Inr p)
    with assms(4) have "p = ([], ?c1)" by simp
    with Inr show ?thesis by (simp add: gather_Cons del: gather.simps(2))
  qed
  have skip: "(case (case ?one of Inl e \<Rightarrow> Inl e | Inr p \<Rightarrow> Inr (fst p)) of
                 Inl e \<Rightarrow> [] | Inr rs \<Rightarrow> rs) = []"
    using assms(4) by (cases ?one) auto
  have all: "extend_all (fst (gather env cache qt ?k ?mr ?fl (pre @ name # post))) [] =
             extend_all (fst (gather env cache qt ?k ?mr ?fl (pre @ post))) []"
    using g skip by (simp add: extend_all_eq gather_append del: gather.simps(2))
  have cache: "snd (gather env cache qt ?k ?mr ?fl (pre @ name # post)) =
               snd (gather env cache qt ?k ?mr ?fl (pre @ post))"
    using g by (simp add: gather_append del: gather.simps(2))
  show same: "query env cache qt (Some (pre @ name # post)) (Some cfg) =
        query env cache qt (Some (pre @ post)) (Some cfg)"
    unfolding query_eq [OF assms(1,2) t1] query_eq [OF assms(1,2) t2] all cache ..
  show "\<exists>res c'. query env cache qt (Some (pre @ name # post)) (Some cfg) = Inr (res, c')"
    unfolding query_eq [OF assms(1,2) t1] by blast
  show "cache_get env c (name, qt, k, fl) = None \<and> \<not> get_collection_ok (collection env name) \<longrightarrow>
            query_single_collection_interface env c qt name k mr fl = Inr ([], c)"
    by (simp add: interface_not_found)
  show "cache_get env c (name, qt, k, fl) = None \<and> get_collection_ok (collection env name) \<and>
          \<not> index_ok (collection env name) \<and>
          (doc_count (collection env name) = 0 \<or> \<not> embed_ok (collection env name) \<or>
           isl (vector_query (collection env name))) \<longrightarrow>
            isl (query_single_collection_interface env c qt name k mr fl)"
    using interface_fallback [of env c name qt k fl mr] fallback_fails [of env c name qt k fl mr]
    by auto
qed



lemmas engine_eval =
  query_def target_collections_def query_single_collection_interface_def
  query_single_collection_def get_retriever_for_collection_def init_retriever_def
  aretrieve_def fuse_results_def fuse_hit_def node_key_def sorted_by_score_def
  to_node_with_score_def to_query_result_def slice_to_def reraise_def
  sample_env_def sample_collections_def sample_collection_def missing_collection_def
  fallback_collection_def sample_config_def sample_hit_def Let_def

lemma sample_query_AB:
  "\<not> isl (query sample_env Map.empty ''q'' (Some [''A'', ''B'']) (Some (sample_config 2 (1 / 100)))) \<and>
   map (\<lambda>r. (content r, relevance_score r))
     (fst (projr (query sample_env Map.empty ''q'' (Some [''A'', ''B''])
        (Some (sample_config 2 (1 / 100)))))) = [(''a1'', 7 / 600), (''a2'', 7 / 610)] \<and>
   map (\<lambda>r. (content r, relevance_score r, collection_name r))
     (the (snd (projr (query sample_env Map.empty ''q'' (Some [''A'', ''B''])
        (Some (sample_config 2 (1 / 100))))) (''A'', ''q'', 2, None))) =
     [(''a1'', 7 / 600, ''A''), (''a2'', 7 / 610, ''A'')] \<and>
   map (\<lambda>r. (content r, relevance_score r, collection_name r))
     (the (snd (projr (query sample_env Map.empty ''q'' (Some [''A'', ''B''])
        (Some (sample_config 2 (1 / 100))))) (''B'', ''q'', 2, None))) =
     [(''b1'', 1 / 200, ''B'')]"
  by (simp add: engine_eval merge_results_def)




theorem query_partial_failure_witness:
  "chroma_client sample_env \<and> embeddings sample_env \<and> [''A''] @ [''B''] \<noteq> [] \<and>
   query_single_collection_interface sample_env
       (snd (gather sample_env Map.empty ''q'' 5 0 None [''A''])) ''q'' ''M'' 5 0 None =
     Inr ([], snd (gather sample_env Map.empty ''q'' 5 0 None [''A''])) \<and>
   query sample_env Map.empty ''q'' (Some [''A'', ''M'', ''B'']) (Some (sample_config 5 0)) =
     query sample_env Map.empty ''q'' (Some [''A'', ''B'']) (Some (sample_config 5 0)) \<and>
   map content (fst (projr (query sample_env Map.empty ''q'' (Some [''A'', ''M'', ''B''])
      (Some (sample_config 5 0))))) = [''a1'', ''b1'', ''a2'']"
proof -
  let ?cfg = "sample_config 5 0"
  have h1: "chroma_client sample_env" and h2: "embeddings sample_env"
    by (simp_all add: sample_env_def)
  have h3: "[''A''] @ [''B''] \<noteq> []" by simp
  have cfg: "n_results ?cfg = 5" "min_relevance ?cfg = 0" "filters ?cfg = None"
    by (simp_all add: sample_config_def)
  have miss: "cache_get sample_env (snd (gather sample_env Map.empty ''q'' 5 0 None [''A'']))
                (''M'', ''q'', 5, None) = None"
    by (simp add: engine_eval)
  have gone: "\<not> get_collection_ok (collection sample_env ''M'')"
    by (simp add: sample_env_def sample_collections_def missing_collection_def)
  have h4: "query_single_collection_interface sample_env
       (snd (gather sample_env Map.empty ''q'' 5 0 None [''A''])) ''q'' ''M'' 5 0 None =
     Inr ([], snd (gather sample_env Map.empty ''q'' 5 0 None [''A'']))"
    using miss gone by (rule interface_not_found)
  then have h4': "isl (query_single_collection_interface sample_env
               (snd (gather sample_env Map.empty ''q'' (n_results ?cfg) (min_relevance ?cfg)
                  (filters ?cfg) [''A'']))
               ''q'' ''M'' (n_results ?cfg) (min_relevance ?cfg) (filters ?cfg)) \<or>
         query_single_collection_interface sample_env
               (snd (gather sample_env Map.empty ''q'' (n_results ?cfg) (min_relevance ?cfg)
                  (filters ?cfg) [''A'']))
               ''q'' ''M'' (n_results ?cfg) (min_relevance ?cfg) (filters ?cfg) =
           Inr ([], snd (gather sample_env Map.empty ''q'' (n_results ?cfg) (min_relevance ?cfg)
                  (filters ?cfg) [''A'']))"
    unfolding cfg by (rule disjI2)
  from query_partial_failure [OF h1 h2 h3 h4']
  have same: "query sample_env Map.empty ''q'' (Some [''A'', ''M'', ''B'']) (Some ?cfg) =
     query sample_env Map.empty ''q'' (Some [''A'', ''B'']) (Some ?cfg)"
    by simp
  have "map content (fst (projr (query sample_env Map.empty ''q'' (Some [''A'', ''B''])
      (Some ?cfg)))) = [''a1'', ''b1'', ''a2'']"
    by (simp add: engine_eval merge_results_def upt_rec)
  with same have out: "map content (fst (projr (query sample_env Map.empty ''q''
      (Some [''A'', ''M'', ''B'']) (Some ?cfg)))) = [''a1'', ''b1'', ''a2'']"
    by simp
  show ?thesis
    by (intro conjI) (fact h1, fact h2, fact h3, fact h4, fact same, fact out)
qed

text \<open>
  C5. Every relevance score lies between 0 and 1. On the vector-only fallback path the code
  computes \<open>1 - distance\<close> and does not clamp it: for a distance of 3/2 the result has a
  relevance of -1/2; it is returned when the threshold is below it, and cached in any case.
\<close>

theorem fallback_relevance_out_of_range:
  "\<not> isl (query sample_env Map.empty ''q'' (Some [''F'']) (Some (sample_config 5 (- 1)))) \<and>
   map (\<lambda>r. (content r, relevance_score r, source_type r))
     (fst (projr (query sample_env Map.empty ''q'' (Some [''F''])
        (Some (sample_config 5 (- 1)))))) = [(''doc'', - (1 / 2), ''vector'')] \<and>
   map (\<lambda>r. (content r, relevance_score r, source_type r))
     (the (snd (projr (query sample_env Map.empty ''q'' (Some [''F''])
        (Some (sample_config 5 0)))) (''F'', ''q'', 5, None))) = [(''doc'', - (1 / 2), ''vector'')]"
  by (simp add: engine_eval merge_results_def)

theorem fallback_relevance_out_of_range_witness:
  "relevance_score (hd (fst (projr (query sample_env Map.empty ''q'' (Some [''F''])
      (Some (sample_config 5 (- 1))))))) < 0"
proof -
  from fallback_relevance_out_of_range
  have "map (\<lambda>r. (content r, relevance_score r, source_type r))
     (fst (projr (query sample_env Map.empty ''q'' (Some [''F''])
        (Some (sample_config 5 (- 1)))))) = [(''doc'', - (1 / 2), ''vector'')]"
    by (elim conjE)
  then show ?thesis
    by (cases "fst (projr (query sample_env Map.empty ''q'' (Some [''F''])
        (Some (sample_config 5 (- 1)))))") auto
qed

end
